theory Spec2Isabelle
  imports Main
begin

section \<open>cache2go: the cache table and its items\<close>

text \<open>
  A sequential model of \<^verbatim>\<open>cacheitem.go\<close> and \<^verbatim>\<open>cachetable.go\<close>.

  \<^item> Items are reached through pointers (\<^verbatim>\<open>*CacheItem\<close>): the model keeps a heap, a list
    of items indexed by address, and the table's map holds addresses. \<^verbatim>\<open>NewCacheItem\<close>
    allocates at the end of the heap.
  \<^item> \<^verbatim>\<open>time.Time\<close> is a number of nanoseconds and \<^verbatim>\<open>time.Duration\<close> an \<^verbatim>\<open>int64\<close> of
    nanoseconds, both carried by \<open>int\<close>; \<^verbatim>\<open>Time.Sub\<close> saturates and \<^verbatim>\<open>int64\<close> arithmetic
    wraps, and both are written out. Every read of \<^verbatim>\<open>time.Now()\<close> is an argument of the
    operation that performs it, in the order of the reads.
  \<^item> Go leaves the order of \<^verbatim>\<open>range\<close> over a map unspecified: the order is an argument,
    a list of keys.
  \<^item> A callback is user code. It is represented by an identifier, and each call of a
    callback is recorded, with its argument, at the end of the trace of the state.
  \<^item> The locks and the logger are left out: the model is one thread, and
    \<^verbatim>\<open>table.log\<close> changes neither the table nor the items.
\<close>

subsection \<open>Durations and times\<close>

type_synonym Time = int
type_synonym Duration = int

definition int64_max :: int where
  "int64_max = 9223372036854775807"

definition int64_min :: int where
  "int64_min = - 9223372036854775808"

definition wrap64 :: "int \<Rightarrow> int" where
  "wrap64 x = (x + 9223372036854775808) mod 18446744073709551616 - 9223372036854775808"

text \<open>\<^verbatim>\<open>t.Sub(u)\<close>: the duration \<open>t - u\<close>, or the largest (smallest) duration when it does
  not fit.\<close>

definition time_Sub :: "Time \<Rightarrow> Time \<Rightarrow> Duration" where
  "time_Sub t u =
     (let d = t - u in
      if d > int64_max then int64_max else if d < int64_min then int64_min else d)"

subsection \<open>Items\<close>

type_synonym addr = nat
type_synonym callback = nat

record ('k, 'v) CacheItem =
  key :: 'k
  data :: 'v
  lifeSpan :: Duration
  createdOn :: Time
  accessedOn :: Time
  accessCount :: int
  aboutToExpire :: "callback list"

definition NewCacheItem :: "Time \<Rightarrow> 'k \<Rightarrow> Duration \<Rightarrow> 'v \<Rightarrow> ('k, 'v) CacheItem" where
  "NewCacheItem t k ls d =
     \<lparr>key = k, data = d, lifeSpan = ls, createdOn = t, accessedOn = t,
      accessCount = 0, aboutToExpire = []\<rparr>"

subsection \<open>The table and the state of the program\<close>

datatype Timer = Timer (duration: Duration) (running: bool)

text \<open>Modelled from the spec: \<^verbatim>\<open>errors.go\<close> is not among the sources; the spec names the
  two errors, \<open>KeyNotFound\<close> and \<open>KeyNotFoundOrNotLoadable\<close>, which the code calls
  \<^verbatim>\<open>ErrKeyNotFound\<close> and \<^verbatim>\<open>ErrKeyNotFoundOrLoadable\<close>.\<close>

datatype error = ErrKeyNotFound | ErrKeyNotFoundOrLoadable

record ('k, 'v, 'a) CacheTable =
  name :: string
  items :: "'k \<rightharpoonup> addr"
  cleanupTimer :: "Timer option"
  cleanupInterval :: Duration
  loadData :: "('k \<Rightarrow> 'a list \<Rightarrow> ('k, 'v) CacheItem option) option"
  addedItem :: "callback list"
  aboutToDeleteItem :: "callback list"

datatype 'k event =
    AddedItemCall callback addr
  | AboutToDeleteItemCall callback addr
  | AboutToExpireCall callback 'k

record ('k, 'v, 'a) world =
  heap :: "('k, 'v) CacheItem list"
  tbl :: "('k, 'v, 'a) CacheTable"
  trace :: "'k event list"

text \<open>\<^verbatim>\<open>Cache(name)\<close> on a name not yet registered: an empty table.\<close>

definition Cache :: "string \<Rightarrow> ('k, 'v, 'a) CacheTable" where
  "Cache n =
     \<lparr>name = n, items = Map.empty, cleanupTimer = None, cleanupInterval = 0,
      loadData = None, addedItem = [], aboutToDeleteItem = []\<rparr>"

definition stopTimer :: "Timer option \<Rightarrow> Timer option" where
  "stopTimer tm = (case tm of None \<Rightarrow> None | Some (Timer d r) \<Rightarrow> Some (Timer d False))"

definition Count :: "('k, 'v, 'a) world \<Rightarrow> nat" where
  "Count w = card (dom (items (tbl w)))"

definition Exists :: "'k \<Rightarrow> ('k, 'v, 'a) world \<Rightarrow> bool" where
  "Exists k w = (case items (tbl w) k of None \<Rightarrow> False | Some a \<Rightarrow> True)"

definition KeepAlive :: "Time \<Rightarrow> addr \<Rightarrow> ('k, 'v, 'a) world \<Rightarrow> ('k, 'v, 'a) world" where
  "KeepAlive now a w =
     w\<lparr>heap := (heap w)[a := (heap w ! a)\<lparr>accessedOn := now,
                                            accessCount := wrap64 (accessCount (heap w ! a) + 1)\<rparr>]\<rparr>"

subsection \<open>Deleting\<close>

definition deleteInternal ::
  "'k \<Rightarrow> ('k, 'v, 'a) world \<Rightarrow> (error + addr) \<times> ('k, 'v, 'a) world" where
  "deleteInternal k w =
     (case items (tbl w) k of
        None \<Rightarrow> (Inl ErrKeyNotFound, w)
      | Some r \<Rightarrow>
          (Inr r,
           w\<lparr>trace := trace w
                @ map (\<lambda>cb. AboutToDeleteItemCall cb r) (aboutToDeleteItem (tbl w))
                @ map (\<lambda>cb. AboutToExpireCall cb k) (aboutToExpire (heap w ! r)),
             tbl := (tbl w)\<lparr>items := (items (tbl w))(k := None)\<rparr>\<rparr>))"

definition Delete ::
  "'k \<Rightarrow> ('k, 'v, 'a) world \<Rightarrow> (error + addr) \<times> ('k, 'v, 'a) world" where
  "Delete k w = deleteInternal k w"

subsection \<open>The expiration check\<close>

text \<open>The loop over \<^verbatim>\<open>table.items\<close>, visiting the keys in the order \<open>ks\<close>; the duration is
  \<^verbatim>\<open>smallestDuration\<close>. A key deleted before the loop reaches it is not visited.\<close>

fun expirationLoop ::
  "Time \<Rightarrow> 'k list \<Rightarrow> Duration \<Rightarrow> ('k, 'v, 'a) world \<Rightarrow> Duration \<times> ('k, 'v, 'a) world" where
  "expirationLoop now [] sd w = (sd, w)"
| "expirationLoop now (k # ks) sd w =
     (case items (tbl w) k of
        None \<Rightarrow> expirationLoop now ks sd w
      | Some a \<Rightarrow>
          (let ls = lifeSpan (heap w ! a); ao = accessedOn (heap w ! a) in
           if ls = 0 then expirationLoop now ks sd w
           else if time_Sub now ao > ls
             then expirationLoop now ks sd (snd (deleteInternal k w))
           else if sd = 0 \<or> wrap64 (ls - time_Sub now ao) < sd
             then expirationLoop now ks (wrap64 (ls - time_Sub now ao)) w
           else expirationLoop now ks sd w))"

definition expirationCheck ::
  "Time \<Rightarrow> 'k list \<Rightarrow> ('k, 'v, 'a) world \<Rightarrow> ('k, 'v, 'a) world" where
  "expirationCheck now ks w =
     (let w1 = w\<lparr>tbl := (tbl w)\<lparr>cleanupTimer := stopTimer (cleanupTimer (tbl w))\<rparr>\<rparr>;
          (sd, w2) = expirationLoop now ks 0 w1;
          w3 = w2\<lparr>tbl := (tbl w2)\<lparr>cleanupInterval := sd\<rparr>\<rparr>
      in if sd > 0 then w3\<lparr>tbl := (tbl w3)\<lparr>cleanupTimer := Some (Timer sd True)\<rparr>\<rparr> else w3)"

subsection \<open>Adding\<close>

text \<open>\<open>addInternal now ks a w\<close>: the item at address \<open>a\<close> enters the table; \<open>now\<close> and \<open>ks\<close>
  are the clock and the order of the map for the expiration check, when there is one.\<close>

definition addInternal ::
  "Time \<Rightarrow> 'k list \<Rightarrow> addr \<Rightarrow> ('k, 'v, 'a) world \<Rightarrow> ('k, 'v, 'a) world" where
  "addInternal now ks a w =
     (let item = heap w ! a;
          expDur = cleanupInterval (tbl w);
          w1 = w\<lparr>tbl := (tbl w)\<lparr>items := (items (tbl w))(key item \<mapsto> a)\<rparr>\<rparr>;
          w2 = w1\<lparr>trace := trace w1 @ map (\<lambda>cb. AddedItemCall cb a) (addedItem (tbl w))\<rparr>
      in if lifeSpan item > 0 \<and> (expDur = 0 \<or> lifeSpan item < expDur)
         then expirationCheck now ks w2 else w2)"

text \<open>\<open>Add t now ks\<close>: \<open>t\<close> is the clock read by \<^verbatim>\<open>NewCacheItem\<close>.\<close>

definition Add ::
  "Time \<Rightarrow> Time \<Rightarrow> 'k list \<Rightarrow> 'k \<Rightarrow> Duration \<Rightarrow> 'v \<Rightarrow> ('k, 'v, 'a) world
     \<Rightarrow> addr \<times> ('k, 'v, 'a) world" where
  "Add t now ks k ls d w =
     (let a = length (heap w);
          w1 = w\<lparr>heap := heap w @ [NewCacheItem t k ls d]\<rparr>
      in (a, addInternal now ks a w1))"

definition NotFoundAdd ::
  "Time \<Rightarrow> Time \<Rightarrow> 'k list \<Rightarrow> 'k \<Rightarrow> Duration \<Rightarrow> 'v \<Rightarrow> ('k, 'v, 'a) world
     \<Rightarrow> bool \<times> ('k, 'v, 'a) world" where
  "NotFoundAdd t now ks k ls d w =
     (case items (tbl w) k of
        Some r \<Rightarrow> (False, w)
      | None \<Rightarrow>
          (let a = length (heap w);
               w1 = w\<lparr>heap := heap w @ [NewCacheItem t k ls d]\<rparr>
           in (True, addInternal now ks a w1)))"

subsection \<open>Reading\<close>

text \<open>\<open>Value t now ks k args\<close>: \<open>t\<close> is the first read of the clock (by \<^verbatim>\<open>KeepAlive\<close> on a
  hit, by \<^verbatim>\<open>NewCacheItem\<close> inside \<^verbatim>\<open>Add\<close> on a miss), \<open>now\<close> the read of the expiration check
  that \<^verbatim>\<open>Add\<close> may start. The item that the loader returns is a new object of the heap.\<close>

definition Value ::
  "Time \<Rightarrow> Time \<Rightarrow> 'k list \<Rightarrow> 'k \<Rightarrow> 'a list \<Rightarrow> ('k, 'v, 'a) world
     \<Rightarrow> (error + addr) \<times> ('k, 'v, 'a) world" where
  "Value t now ks k args w =
     (case items (tbl w) k of
        Some r \<Rightarrow> (Inr r, KeepAlive t r w)
      | None \<Rightarrow>
          (case loadData (tbl w) of
             None \<Rightarrow> (Inl ErrKeyNotFound, w)
           | Some f \<Rightarrow>
               (case f k args of
                  None \<Rightarrow> (Inl ErrKeyNotFoundOrLoadable, w)
                | Some item \<Rightarrow>
                    (let p = length (heap w);
                         w1 = w\<lparr>heap := heap w @ [item]\<rparr>
                     in (Inr p, snd (Add t now ks (key item) (lifeSpan item) (data item) w1))))))"

definition Flush :: "('k, 'v, 'a) world \<Rightarrow> ('k, 'v, 'a) world" where
  "Flush w =
     w\<lparr>tbl := (tbl w)\<lparr>items := Map.empty, cleanupInterval := 0,
                       cleanupTimer := stopTimer (cleanupTimer (tbl w))\<rparr>\<rparr>"

subsection \<open>The most accessed items\<close>

record 'k CacheItemPair =
  Key :: 'k
  AccessCount :: int

type_synonym 'k CacheItemList = "'k CacheItemPair list"

definition Less :: "'k CacheItemPair \<Rightarrow> 'k CacheItemPair \<Rightarrow> bool" where
  "Less x y = (AccessCount x > AccessCount y)"

text \<open>\<^verbatim>\<open>sort.Sort\<close> belongs to the Go library: it orders the list by the calls it makes to
  \<open>Less\<close> and promises nothing on the order of pairs of which neither is \<open>Less\<close> than the
  other. The model is the insertion sort of that library, which is what \<^verbatim>\<open>sort.Sort\<close> runs
  on a short list: each pair in turn moves towards the front, past the pair before it, for
  as long as \<open>Less\<close> puts it before that pair. In \<open>moveDown\<close> the pairs already sorted come
  last first.\<close>

fun moveDown :: "'k CacheItemPair \<Rightarrow> 'k CacheItemList \<Rightarrow> 'k CacheItemList" where
  "moveDown x [] = [x]"
| "moveDown x (y # before) =
     (if Less x y then y # moveDown x before else x # y # before)"

definition insertionSort :: "'k CacheItemList \<Rightarrow> 'k CacheItemList" where
  "insertionSort p = rev (foldl (\<lambda>sorted x. moveDown x sorted) [] p)"

definition sort_Sort :: "'k CacheItemList \<Rightarrow> 'k CacheItemList" where
  "sort_Sort p = insertionSort p"

text \<open>The first loop of \<^verbatim>\<open>MostAccessed\<close>: one pair for each key of the map, in the order
  \<open>ks\<close> of the \<^verbatim>\<open>range\<close>.\<close>

fun snapshot :: "('k, 'v, 'a) world \<Rightarrow> 'k list \<Rightarrow> 'k CacheItemList" where
  "snapshot w [] = []"
| "snapshot w (k # ks) =
     (case items (tbl w) k of
        None \<Rightarrow> snapshot w ks
      | Some a \<Rightarrow> \<lparr>Key = k, AccessCount = accessCount (heap w ! a)\<rparr> # snapshot w ks)"

text \<open>The second loop: \<open>c\<close> counts the pairs visited and \<open>r\<close> is the result so far.\<close>

fun resolve ::
  "('k \<rightharpoonup> addr) \<Rightarrow> 'k CacheItemList \<Rightarrow> int \<Rightarrow> int \<Rightarrow> addr list \<Rightarrow> addr list" where
  "resolve its [] c count r = r"
| "resolve its (v # p) c count r =
     (if c \<ge> count then r
      else resolve its p (c + 1) count
             (case its (Key v) of None \<Rightarrow> r | Some item \<Rightarrow> r @ [item]))"

definition MostAccessed :: "int \<Rightarrow> 'k list \<Rightarrow> ('k, 'v, 'a) world \<Rightarrow> addr list" where
  "MostAccessed count ks w = resolve (items (tbl w)) (sort_Sort (snapshot w ks)) 0 count []"

text \<open>An order in which a \<^verbatim>\<open>range\<close> may visit the keys of the map: each key once.\<close>

definition range_order :: "'k list \<Rightarrow> ('k \<rightharpoonup> addr) \<Rightarrow> bool" where
  "range_order ks m = (distinct ks \<and> set ks = dom m)"

subsection \<open>Conditions of the code, named\<close>

text \<open>The two tests of the expiration loop that send an item to \<^verbatim>\<open>deleteInternal\<close>.\<close>

definition expired :: "Time \<Rightarrow> ('k, 'v) CacheItem \<Rightarrow> bool" where
  "expired now it = (lifeSpan it \<noteq> 0 \<and> time_Sub now (accessedOn it) > lifeSpan it)"

text \<open>\<^verbatim>\<open>lifeSpan - now.Sub(accessedOn)\<close>, and \<^verbatim>\<open>smallestDuration\<close> after the loop has seen an
  item that it keeps.\<close>

definition remaining :: "Time \<Rightarrow> ('k, 'v) CacheItem \<Rightarrow> Duration" where
  "remaining now it = wrap64 (lifeSpan it - time_Sub now (accessedOn it))"

definition nextSmallest :: "Time \<Rightarrow> ('k, 'v) CacheItem \<Rightarrow> Duration \<Rightarrow> Duration" where
  "nextSmallest now it sd =
     (if lifeSpan it = 0 then sd
      else if sd = 0 \<or> remaining now it < sd then remaining now it else sd)"

text \<open>The keys whose item the loop keeps and counts for \<^verbatim>\<open>smallestDuration\<close>, the time
  left of the item under a key, and the update of \<^verbatim>\<open>smallestDuration\<close> by such a time.\<close>

definition kept :: "Time \<Rightarrow> ('k, 'v, 'a) world \<Rightarrow> 'k \<Rightarrow> bool" where
  "kept now w k =
     (case items (tbl w) k of
        None \<Rightarrow> False
      | Some a \<Rightarrow> lifeSpan (heap w ! a) \<noteq> 0 \<and> \<not> expired now (heap w ! a))"

definition remainingOf :: "Time \<Rightarrow> ('k, 'v, 'a) world \<Rightarrow> 'k \<Rightarrow> Duration" where
  "remainingOf now w k = remaining now (heap w ! the (items (tbl w) k))"

definition smaller :: "Duration \<Rightarrow> Duration \<Rightarrow> Duration" where
  "smaller sd r = (if sd = 0 \<or> r < sd then r else sd)"

text \<open>The test of \<^verbatim>\<open>addInternal\<close> that starts an expiration check, and the state of
  \<^verbatim>\<open>Add\<close> just before that test: the new item is in the heap and in the map, and the
  callbacks of \<^verbatim>\<open>addedItem\<close> have been called.\<close>

definition triggers :: "Duration \<Rightarrow> ('k, 'v, 'a) world \<Rightarrow> bool" where
  "triggers ls w = (ls > 0 \<and> (cleanupInterval (tbl w) = 0 \<or> ls < cleanupInterval (tbl w)))"

definition addedState ::
  "Time \<Rightarrow> 'k \<Rightarrow> Duration \<Rightarrow> 'v \<Rightarrow> ('k, 'v, 'a) world \<Rightarrow> ('k, 'v, 'a) world" where
  "addedState t k ls d w =
     w\<lparr>heap := heap w @ [NewCacheItem t k ls d],
       tbl := (tbl w)\<lparr>items := (items (tbl w))(k \<mapsto> length (heap w))\<rparr>,
       trace := trace w @ map (\<lambda>cb. AddedItemCall cb (length (heap w))) (addedItem (tbl w))\<rparr>"


text \<open>The calls that \<^verbatim>\<open>deleteInternal\<close> makes for a key when the expiration check visits
  it in the state \<open>w\<close>: none for a key that is not in the map or whose item is not expired.\<close>

definition deleteEvents :: "Time \<Rightarrow> ('k, 'v, 'a) world \<Rightarrow> 'k \<Rightarrow> 'k event list" where
  "deleteEvents now w k =
     (case items (tbl w) k of
        None \<Rightarrow> []
      | Some a \<Rightarrow>
          if expired now (heap w ! a)
          then map (\<lambda>cb. AboutToDeleteItemCall cb a) (aboutToDeleteItem (tbl w))
               @ map (\<lambda>cb. AboutToExpireCall cb k) (aboutToExpire (heap w ! a))
          else [])"

text \<open>The state of \<^verbatim>\<open>Value\<close> when the loader has returned an item: the item is a new object
  of the heap.\<close>

definition loadedState :: "('k, 'v) CacheItem \<Rightarrow> ('k, 'v, 'a) world \<Rightarrow> ('k, 'v, 'a) world" where
  "loadedState item w = w\<lparr>heap := heap w @ [item]\<rparr>"

text \<open>The access count of the item stored under a key.\<close>

definition countOf :: "('k, 'v, 'a) world \<Rightarrow> 'k \<Rightarrow> int" where
  "countOf w k = accessCount (heap w ! the (items (tbl w) k))"

subsection \<open>States and loaders of the examples\<close>

definition w_empty :: "(string, string, nat) world" where
  "w_empty = \<lparr>heap = [], tbl = Cache ''t'', trace = []\<rparr>"

definition example_loader :: "string \<Rightarrow> nat list \<Rightarrow> (string, string) CacheItem option" where
  "example_loader k args = Some (NewCacheItem 0 k 0 (''loaded:'' @ k))"

definition failing_loader :: "string \<Rightarrow> nat list \<Rightarrow> (string, string) CacheItem option" where
  "failing_loader k args = None"

definition w_load :: "(string, string, nat) world" where
  "w_load = \<lparr>heap = [], tbl = (Cache ''t'')\<lparr>loadData := Some example_loader\<rparr>, trace = []\<rparr>"

text \<open>A loader that answers with an item under another key, and one whose items live
  1 ns.\<close>

definition alias_loader :: "string \<Rightarrow> nat list \<Rightarrow> (string, string) CacheItem option" where
  "alias_loader k args = Some (NewCacheItem 0 (''alias:'' @ k) 0 ''v'')"

definition brief_loader :: "string \<Rightarrow> nat list \<Rightarrow> (string, string) CacheItem option" where
  "brief_loader k args = Some (NewCacheItem 0 k 1 ''v'')"

definition w_alias :: "(string, string, nat) world" where
  "w_alias = \<lparr>heap = [], tbl = (Cache ''t'')\<lparr>loadData := Some alias_loader\<rparr>, trace = []\<rparr>"

definition w_brief :: "(string, string, nat) world" where
  "w_brief = \<lparr>heap = [], tbl = (Cache ''t'')\<lparr>loadData := Some brief_loader\<rparr>, trace = []\<rparr>"

definition w_noload :: "(string, string, nat) world" where
  "w_noload = \<lparr>heap = [], tbl = (Cache ''t'')\<lparr>loadData := Some failing_loader\<rparr>, trace = []\<rparr>"

text \<open>A table with a permanent item, and an item of 10 ns added at time 0 that has an
  \<^verbatim>\<open>aboutToExpire\<close> callback; the timer is armed for 10 ns.\<close>

definition w_old :: "(string, string, nat) world" where
  "w_old =
     \<lparr>heap = [NewCacheItem 0 ''k'' 0 ''v1'',
              (NewCacheItem 0 ''old'' 10 ''v0'')\<lparr>aboutToExpire := [7]\<rparr>],
      tbl = (Cache ''t'')\<lparr>items := [''k'' \<mapsto> 0, ''old'' \<mapsto> 1],
                          cleanupTimer := Some (Timer 10 True), cleanupInterval := 10,
                          addedItem := [1], aboutToDeleteItem := [3]\<rparr>,
      trace = []\<rparr>"

text \<open>Four items read at time 100: one that never expires, one accessed 10 ns ago and one
  100 ns ago, both with 20 ns to live, and one with a negative life span.\<close>

definition w_sweep :: "(string, string, nat) world" where
  "w_sweep =
     \<lparr>heap = [NewCacheItem 0 ''forever'' 0 ''v'', NewCacheItem 90 ''fresh'' 20 ''v'',
              NewCacheItem 0 ''stale'' 20 ''v'', NewCacheItem 0 ''neg'' (- 1) ''v''],
      tbl = (Cache ''t'')\<lparr>items := [''forever'' \<mapsto> 0, ''fresh'' \<mapsto> 1,
                                     ''stale'' \<mapsto> 2, ''neg'' \<mapsto> 3]\<rparr>,
      trace = []\<rparr>"

definition w_neg :: "(string, string, nat) world" where
  "w_neg = \<lparr>heap = [NewCacheItem 0 ''neg'' (- 1) ''v''],
            tbl = (Cache ''t'')\<lparr>items := [''neg'' \<mapsto> 0]\<rparr>, trace = []\<rparr>"

text \<open>At time 10 the item \<open>a\<close> has exactly 0 ns left and the item \<open>b\<close> has 15.\<close>

definition w_tie :: "(string, string, nat) world" where
  "w_tie = \<lparr>heap = [NewCacheItem 0 ''a'' 10 ''x'', NewCacheItem 5 ''b'' 20 ''y''],
            tbl = (Cache ''t'')\<lparr>items := [''a'' \<mapsto> 0, ''b'' \<mapsto> 1]\<rparr>, trace = []\<rparr>"

text \<open>Items with the access counts 5, 1, 9 and 3.\<close>

definition w_rank :: "(string, string, nat) world" where
  "w_rank =
     \<lparr>heap = [(NewCacheItem 0 ''a'' 0 ''va'')\<lparr>accessCount := 5\<rparr>,
              (NewCacheItem 0 ''b'' 0 ''vb'')\<lparr>accessCount := 1\<rparr>,
              (NewCacheItem 0 ''c'' 0 ''vc'')\<lparr>accessCount := 9\<rparr>,
              (NewCacheItem 0 ''d'' 0 ''vd'')\<lparr>accessCount := 3\<rparr>],
      tbl = (Cache ''t'')\<lparr>items := [''a'' \<mapsto> 0, ''b'' \<mapsto> 1, ''c'' \<mapsto> 2, ''d'' \<mapsto> 3]\<rparr>,
      trace = []\<rparr>"

section \<open>Lemmas on the operations\<close>

lemma wrap64_id: "int64_min \<le> x \<Longrightarrow> x \<le> int64_max \<Longrightarrow> wrap64 x = x"
  by (simp add: wrap64_def int64_min_def int64_max_def)

lemma deleteInternal_heap: "heap (snd (deleteInternal k w)) = heap w"
  by (simp add: deleteInternal_def split: option.splits)

lemma deleteInternal_items:
  "items (tbl (snd (deleteInternal k w))) = (items (tbl w))(k := None)"
  by (auto simp add: deleteInternal_def split: option.splits)

lemma deleteInternal_trace:
  "items (tbl w) k = Some b \<Longrightarrow>
   trace (snd (deleteInternal k w)) =
     trace w @ map (\<lambda>cb. AboutToDeleteItemCall cb b) (aboutToDeleteItem (tbl w))
             @ map (\<lambda>cb. AboutToExpireCall cb k) (aboutToExpire (heap w ! b))"
  by (simp add: deleteInternal_def)

text \<open>One turn of the loop, in terms of the named conditions.\<close>

lemma expirationLoop_Cons:
  "expirationLoop now (k # ks) sd w =
     (case items (tbl w) k of
        None \<Rightarrow> expirationLoop now ks sd w
      | Some a \<Rightarrow>
          if expired now (heap w ! a)
          then expirationLoop now ks sd (snd (deleteInternal k w))
          else expirationLoop now ks (nextSmallest now (heap w ! a) sd) w)"
  by (simp add: Let_def expired_def nextSmallest_def remaining_def split: option.splits)

declare expirationLoop.simps(2) [simp del]

lemma expirationLoop_heap: "heap (snd (expirationLoop now ks sd w)) = heap w"
proof (induction ks arbitrary: sd w)
  case Nil
  show ?case by simp
next
  case (Cons k ks)
  show ?case
    by (simp add: expirationLoop_Cons Cons.IH deleteInternal_heap split: option.splits)
qed

text \<open>The loop only deletes, and never an item that is not expired.\<close>

lemma expirationLoop_survive:
  "items (tbl w) k = Some a \<Longrightarrow> \<not> expired now (heap w ! a) \<Longrightarrow>
   items (tbl (snd (expirationLoop now ks sd w))) k = Some a"
proof (induction ks arbitrary: sd w)
  case Nil
  then show ?case by simp
next
  case (Cons k' ks)
  show ?case
  proof (cases "items (tbl w) k'")
    case None
    with Cons show ?thesis by (simp add: expirationLoop_Cons)
  next
    case (Some b)
    show ?thesis
    proof (cases "expired now (heap w ! b)")
      case True
      with Some Cons.prems have ne: "k' \<noteq> k" by auto
      have "items (tbl (snd (deleteInternal k' w))) k = Some a"
        using ne Cons.prems(1) by (simp add: deleteInternal_items)
      moreover have "\<not> expired now (heap (snd (deleteInternal k' w)) ! a)"
        using Cons.prems(2) by (simp add: deleteInternal_heap)
      ultimately have
        "items (tbl (snd (expirationLoop now ks sd (snd (deleteInternal k' w))))) k = Some a"
        by (rule Cons.IH)
      with Some True show ?thesis by (simp add: expirationLoop_Cons)
    next
      case False
      with Some Cons.IH [OF Cons.prems] show ?thesis by (simp add: expirationLoop_Cons)
    qed
  qed
qed

lemma expirationLoop_only_deletes:
  "items (tbl (snd (expirationLoop now ks sd w))) k = Some a \<Longrightarrow> items (tbl w) k = Some a"
proof (induction ks arbitrary: sd w)
  case Nil
  then show ?case by simp
next
  case (Cons k' ks)
  show ?case
  proof (cases "items (tbl w) k'")
    case None
    with Cons show ?thesis by (simp add: expirationLoop_Cons)
  next
    case (Some b)
    show ?thesis
    proof (cases "expired now (heap w ! b)")
      case True
      with Some Cons.prems
      have "items (tbl (snd (expirationLoop now ks sd (snd (deleteInternal k' w))))) k = Some a"
        by (simp add: expirationLoop_Cons)
      then have "items (tbl (snd (deleteInternal k' w))) k = Some a"
        by (rule Cons.IH)
      then show ?thesis
        by (simp add: deleteInternal_items split: if_splits)
    next
      case False
      with Some Cons.prems have
        "items (tbl (snd (expirationLoop now ks (nextSmallest now (heap w ! b) sd) w))) k = Some a"
        by (simp add: expirationLoop_Cons)
      then show ?thesis by (rule Cons.IH)
    qed
  qed
qed

text \<open>An expired item that the loop visits is deleted.\<close>

lemma expirationLoop_removes:
  "k \<in> set ks \<Longrightarrow> items (tbl w) k = Some a \<Longrightarrow> expired now (heap w ! a) \<Longrightarrow>
   items (tbl (snd (expirationLoop now ks sd w))) k = None"
proof (induction ks arbitrary: sd w)
  case Nil
  then show ?case by simp
next
  case (Cons k' ks)
  show ?case
  proof (cases "k' = k")
    case True
    have "items (tbl (snd (expirationLoop now ks sd (snd (deleteInternal k w))))) k = None"
    proof (cases "items (tbl (snd (expirationLoop now ks sd (snd (deleteInternal k w))))) k")
      case None
      then show ?thesis .
    next
      case (Some b)
      then have "items (tbl (snd (deleteInternal k w))) k = Some b"
        by (rule expirationLoop_only_deletes)
      then show ?thesis by (simp add: deleteInternal_items)
    qed
    with True Cons.prems show ?thesis
      by (simp add: expirationLoop_Cons)
  next
    case False
    with Cons.prems have k_in: "k \<in> set ks" by simp
    show ?thesis
    proof (cases "items (tbl w) k'")
      case None
      with Cons.IH [OF k_in Cons.prems(2,3)] show ?thesis by (simp add: expirationLoop_Cons)
    next
      case (Some b)
      have del: "items (tbl (snd (deleteInternal k' w))) k = Some a"
        using False Cons.prems(2) by (simp add: deleteInternal_items)
      have exp: "expired now (heap (snd (deleteInternal k' w)) ! a)"
        using Cons.prems(3) by (simp add: deleteInternal_heap)
      from Some Cons.IH [OF k_in Cons.prems(2,3)] Cons.IH [OF k_in del exp]
      show ?thesis by (simp add: expirationLoop_Cons)
    qed
  qed
qed


subsection \<open>The expiration check\<close>

lemma expirationCheck_items:
  "items (tbl (expirationCheck now ks w)) =
   items (tbl (snd (expirationLoop now ks 0
      (w\<lparr>tbl := (tbl w)\<lparr>cleanupTimer := stopTimer (cleanupTimer (tbl w))\<rparr>\<rparr>))))"
  by (simp add: expirationCheck_def Let_def split: prod.splits)

lemma expirationCheck_heap: "heap (expirationCheck now ks w) = heap w"
proof -
  have "heap (expirationCheck now ks w) =
        heap (snd (expirationLoop now ks 0
          (w\<lparr>tbl := (tbl w)\<lparr>cleanupTimer := stopTimer (cleanupTimer (tbl w))\<rparr>\<rparr>)))"
    by (simp add: expirationCheck_def Let_def split: prod.splits)
  then show ?thesis by (simp add: expirationLoop_heap)
qed

lemma expirationCheck_survive:
  assumes "items (tbl w) k = Some a" and "\<not> expired now (heap w ! a)"
  shows "items (tbl (expirationCheck now ks w)) k = Some a"
  unfolding expirationCheck_items
  by (rule expirationLoop_survive) (use assms in simp_all)


text \<open>The map after an expiration check, key by key.\<close>

lemma expirationCheck_items_exact:
  assumes "range_order ks (items (tbl w))"
  shows "items (tbl (expirationCheck now ks w)) k =
          (case items (tbl w) k of
             None \<Rightarrow> None
           | Some a \<Rightarrow> if expired now (heap w ! a) then None else Some a)"
proof (cases "items (tbl w) k")
  case None
  have "items (tbl (expirationCheck now ks w)) k = None"
  proof (cases "items (tbl (expirationCheck now ks w)) k")
    case (Some b)
    then have "items (tbl w) k = Some b"
      unfolding expirationCheck_items by (auto dest: expirationLoop_only_deletes)
    with None show ?thesis by simp
  qed simp
  with None show ?thesis by simp
next
  case (Some a)
  from assms Some have k_in: "k \<in> set ks" by (auto simp: range_order_def)
  show ?thesis
  proof (cases "expired now (heap w ! a)")
    case True
    have "items (tbl (expirationCheck now ks w)) k = None"
      unfolding expirationCheck_items
      by (rule expirationLoop_removes [OF k_in, where a = a]) (use Some True in simp_all)
    with Some True show ?thesis by simp
  next
    case False
    with Some have "items (tbl (expirationCheck now ks w)) k = Some a"
      by (rule expirationCheck_survive)
    with Some False show ?thesis by simp
  qed
qed

text \<open>The calls of an expiration check, in the order of the visit.\<close>

lemma deleteInternal_callbacks:
  "aboutToDeleteItem (tbl (snd (deleteInternal k w))) = aboutToDeleteItem (tbl w)"
  by (simp add: deleteInternal_def split: option.splits)

lemma deleteEvents_delete:
  "k \<noteq> k' \<Longrightarrow> deleteEvents now (snd (deleteInternal k' w)) k = deleteEvents now w k"
  by (simp add: deleteEvents_def deleteInternal_items deleteInternal_heap
      deleteInternal_callbacks split: option.splits)

lemma expirationLoop_trace_exact:
  "distinct ks \<Longrightarrow>
   trace (snd (expirationLoop now ks sd w)) = trace w @ concat (map (deleteEvents now w) ks)"
proof (induction ks arbitrary: sd w)
  case Nil
  show ?case by simp
next
  case (Cons k' ks)
  then have d: "distinct ks" and notin: "k' \<notin> set ks" by simp_all
  show ?case
  proof (cases "items (tbl w) k'")
    case None
    then show ?thesis
      by (simp add: expirationLoop_Cons Cons.IH [OF d] deleteEvents_def)
  next
    case (Some b)
    show ?thesis
    proof (cases "expired now (heap w ! b)")
      case False
      with Some show ?thesis
        by (simp add: expirationLoop_Cons Cons.IH [OF d] deleteEvents_def)
    next
      case True
      let ?w' = "snd (deleteInternal k' w)"
      have same: "map (deleteEvents now ?w') ks = map (deleteEvents now w) ks"
      proof (rule map_cong [OF refl])
        fix k assume "k \<in> set ks"
        with notin have "k \<noteq> k'" by auto
        then show "deleteEvents now ?w' k = deleteEvents now w k"
          by (rule deleteEvents_delete)
      qed
      have "trace (snd (expirationLoop now ks sd ?w'))
              = trace ?w' @ concat (map (deleteEvents now w) ks)"
        using Cons.IH [OF d, of sd ?w'] by (simp add: same)
      moreover have "trace ?w' = trace w @ deleteEvents now w k'"
        using Some True by (simp add: deleteInternal_trace deleteEvents_def)
      ultimately show ?thesis
        using Some True by (simp add: expirationLoop_Cons)
    qed
  qed
qed

lemma expirationCheck_trace_exact:
  assumes "distinct ks"
  shows "trace (expirationCheck now ks w) = trace w @ concat (map (deleteEvents now w) ks)"
proof -
  let ?w1 = "w\<lparr>tbl := (tbl w)\<lparr>cleanupTimer := stopTimer (cleanupTimer (tbl w))\<rparr>\<rparr>"
  have "trace (expirationCheck now ks w) = trace (snd (expirationLoop now ks 0 ?w1))"
    by (simp add: expirationCheck_def Let_def split: prod.splits)
  moreover have "deleteEvents now ?w1 = deleteEvents now w"
    by (rule ext) (simp add: deleteEvents_def split: option.splits)
  ultimately show ?thesis
    using expirationLoop_trace_exact [OF assms, of now 0 ?w1] by simp
qed

text \<open>The interval that the loop computes.\<close>

lemma kept_delete:
  assumes "items (tbl w) k' = Some b" and "expired now (heap w ! b)"
  shows "kept now (snd (deleteInternal k' w)) k = kept now w k"
  using assms by (auto simp: kept_def deleteInternal_items deleteInternal_heap split: option.splits)

lemma remainingOf_delete:
  assumes "k \<noteq> k'"
  shows "remainingOf now (snd (deleteInternal k' w)) k = remainingOf now w k"
  using assms by (simp add: remainingOf_def deleteInternal_items deleteInternal_heap)

lemma kept_list_delete:
  assumes "items (tbl w) k' = Some b" and "expired now (heap w ! b)"
  shows "map (remainingOf now (snd (deleteInternal k' w)))
           (filter (kept now (snd (deleteInternal k' w))) ks)
       = map (remainingOf now w) (filter (kept now w) ks)"
proof -
  have "\<not> kept now w k'" using assms by (simp add: kept_def)
  then have "\<And>k. kept now w k \<Longrightarrow> k \<noteq> k'" by auto
  then show ?thesis
    by (induction ks) (auto simp: kept_delete [OF assms] remainingOf_delete)
qed

lemma expirationLoop_fst:
  "fst (expirationLoop now ks sd w) =
     foldl smaller sd (map (remainingOf now w) (filter (kept now w) ks))"
proof (induction ks arbitrary: sd w)
  case Nil
  show ?case by simp
next
  case (Cons k' ks)
  show ?case
  proof (cases "items (tbl w) k'")
    case None
    then show ?thesis by (simp add: expirationLoop_Cons Cons.IH kept_def)
  next
    case (Some b)
    show ?thesis
    proof (cases "expired now (heap w ! b)")
      case True
      then have "\<not> kept now w k'" using Some by (simp add: kept_def)
      with Some True show ?thesis
        by (simp add: expirationLoop_Cons Cons.IH kept_list_delete)
    next
      case False
      with Some show ?thesis
        by (auto simp add: expirationLoop_Cons Cons.IH kept_def remainingOf_def
            nextSmallest_def smaller_def)
    qed
  qed
qed

lemma foldl_smaller_pos:
  assumes "\<forall>r \<in> set rs. 0 < r" and "0 \<le> sd"
  shows "foldl smaller sd rs =
           (if sd = 0 then (if rs = [] then 0 else Min (set rs)) else Min (insert sd (set rs)))"
  using assms
proof (induction rs arbitrary: sd)
  case Nil
  then show ?case by simp
next
  case (Cons r rs)
  from Cons.prems have r: "0 < r" and rs: "\<forall>r \<in> set rs. 0 < r" by simp_all
  have s: "0 < smaller sd r" "0 \<le> smaller sd r"
    using r Cons.prems(2) by (auto simp: smaller_def)
  have "foldl smaller sd (r # rs) = Min (insert (smaller sd r) (set rs))"
    using Cons.IH [OF rs s(2)] s(1) by simp
  also have "\<dots> = (if sd = 0 then Min (set (r # rs)) else Min (insert sd (set (r # rs))))"
  proof (cases "sd = 0 \<or> r < sd")
    case True
    then show ?thesis
    proof (cases "sd = 0")
      case True
      then show ?thesis by (simp add: smaller_def)
    next
      case False
      with True have "r < sd" by simp
      have le: "Min (insert r (set rs)) \<le> r" by (rule Min_le) simp_all
      have "Min (insert sd (insert r (set rs))) = min sd (Min (insert r (set rs)))"
        by (rule Min_insert) simp_all
      also have "\<dots> = Min (insert r (set rs))"
        by (rule min_absorb2) (use le \<open>r < sd\<close> in linarith)
      finally have "Min (insert sd (insert r (set rs))) = Min (insert r (set rs))" .
      with \<open>r < sd\<close> False show ?thesis by (simp add: smaller_def)
    qed
  next
    case False
    then have "sd \<le> r" "sd \<noteq> 0" by simp_all
    have le: "Min (insert sd (set rs)) \<le> sd" by (rule Min_le) simp_all
    have "Min (insert r (insert sd (set rs))) = min r (Min (insert sd (set rs)))"
      by (rule Min_insert) simp_all
    also have "\<dots> = Min (insert sd (set rs))"
      by (rule min_absorb2) (use le \<open>sd \<le> r\<close> in linarith)
    finally have "Min (insert r (insert sd (set rs))) = Min (insert sd (set rs))" .
    then have "Min (insert sd (insert r (set rs))) = Min (insert sd (set rs))"
      by (simp add: insert_commute)
    with False show ?thesis by (simp add: smaller_def)
  qed
  finally show ?case by simp
qed


lemma expirationCheck_interval:
  "cleanupInterval (tbl (expirationCheck now ks w)) =
   fst (expirationLoop now ks 0
      (w\<lparr>tbl := (tbl w)\<lparr>cleanupTimer := stopTimer (cleanupTimer (tbl w))\<rparr>\<rparr>))"
  by (simp add: expirationCheck_def Let_def split: prod.splits)

subsection \<open>Adding\<close>

lemma Add_eq:
  "Add t now ks k ls d w =
     (length (heap w),
      if triggers ls w then expirationCheck now ks (addedState t k ls d w)
      else addedState t k ls d w)"
  by (auto simp add: Add_def addInternal_def Let_def NewCacheItem_def addedState_def triggers_def)

lemma NotFoundAdd_absent:
  "items (tbl w) k = None \<Longrightarrow> NotFoundAdd t now ks k ls d w = (True, snd (Add t now ks k ls d w))"
  by (simp add: NotFoundAdd_def Add_def Let_def)

lemma addedState_simps:
  "heap (addedState t k ls d w) = heap w @ [NewCacheItem t k ls d]"
  "items (tbl (addedState t k ls d w)) = (items (tbl w))(k \<mapsto> length (heap w))"
  "trace (addedState t k ls d w) =
     trace w @ map (\<lambda>cb. AddedItemCall cb (length (heap w))) (addedItem (tbl w))"
  by (simp_all add: addedState_def)

lemma Add_heap: "heap (snd (Add t now ks k ls d w)) = heap w @ [NewCacheItem t k ls d]"
  by (simp add: Add_eq expirationCheck_heap addedState_simps)

lemma Add_keeps_new:
  assumes "\<not> expired now (NewCacheItem t k ls d)"
  shows "items (tbl (snd (Add t now ks k ls d w))) k = Some (length (heap w))"
proof (cases "triggers ls w")
  case False
  then show ?thesis by (simp add: Add_eq addedState_simps)
next
  case True
  have "items (tbl (expirationCheck now ks (addedState t k ls d w))) k = Some (length (heap w))"
    by (rule expirationCheck_survive) (use assms in \<open>simp_all add: addedState_simps\<close>)
  with True show ?thesis by (simp add: Add_eq)
qed

lemma Add_new_or_gone:
  "items (tbl (snd (Add t now ks k ls d w))) k = Some a \<Longrightarrow> a = length (heap w)"
proof (cases "triggers ls w")
  case False
  assume "items (tbl (snd (Add t now ks k ls d w))) k = Some a"
  with False show ?thesis by (simp add: Add_eq addedState_simps)
next
  case True
  assume "items (tbl (snd (Add t now ks k ls d w))) k = Some a"
  with True have "items (tbl (expirationCheck now ks (addedState t k ls d w))) k = Some a"
    by (simp add: Add_eq)
  then have "items (tbl (addedState t k ls d w)) k = Some a"
    unfolding expirationCheck_items by (auto dest: expirationLoop_only_deletes)
  then show ?thesis by (simp add: addedState_simps)
qed

lemma Add_no_sweep:
  assumes "\<not> triggers ls w"
  shows "items (tbl (snd (Add t now ks k ls d w))) = (items (tbl w))(k \<mapsto> length (heap w))"
    and "trace (snd (Add t now ks k ls d w)) =
           trace w @ map (\<lambda>cb. AddedItemCall cb (length (heap w))) (addedItem (tbl w))"
  using assms by (simp_all add: Add_eq addedState_simps)



lemma Add_state:
  "snd (Add t now ks k ls d w) =
     (if triggers ls w then expirationCheck now ks (addedState t k ls d w)
      else addedState t k ls d w)"
  by (simp add: Add_eq)

text \<open>When \<^verbatim>\<open>Add\<close> starts the expiration check: the map and the calls afterwards.\<close>

lemma Add_sweeps:
  assumes "triggers ls w" and "range_order ks ((items (tbl w))(k \<mapsto> length (heap w)))"
  shows "items (tbl (snd (Add t now ks k ls d w))) k' =
          (case ((items (tbl w))(k \<mapsto> length (heap w))) k' of
             None \<Rightarrow> None
           | Some a \<Rightarrow>
               if expired now ((heap w @ [NewCacheItem t k ls d]) ! a) then None else Some a)"
    and "trace (snd (Add t now ks k ls d w)) =
           trace w @ map (\<lambda>cb. AddedItemCall cb (length (heap w))) (addedItem (tbl w))
             @ concat (map (deleteEvents now (addedState t k ls d w)) ks)"
proof -
  from assms(2) have ro: "range_order ks (items (tbl (addedState t k ls d w)))"
    by (simp add: addedState_simps)
  then have d: "distinct ks" by (simp add: range_order_def)
  show "items (tbl (snd (Add t now ks k ls d w))) k' =
          (case ((items (tbl w))(k \<mapsto> length (heap w))) k' of
             None \<Rightarrow> None
           | Some a \<Rightarrow>
               if expired now ((heap w @ [NewCacheItem t k ls d]) ! a) then None else Some a)"
    using assms(1) expirationCheck_items_exact [OF ro, of now k', unfolded addedState_simps]
    by (simp add: Add_state)
  show "trace (snd (Add t now ks k ls d w)) =
           trace w @ map (\<lambda>cb. AddedItemCall cb (length (heap w))) (addedItem (tbl w))
             @ concat (map (deleteEvents now (addedState t k ls d w)) ks)"
    using assms(1) expirationCheck_trace_exact [OF d, of now "addedState t k ls d w"]
    by (simp add: Add_state addedState_simps)
qed


subsection \<open>Reading through the loader\<close>

lemma Value_eq:
  assumes "items (tbl w) k = None" and "loadData (tbl w) = Some f" and "f k args = Some item"
  shows "Value t now ks k args w =
           (Inr (length (heap w)),
            snd (Add t now ks (key item) (lifeSpan item) (data item) (loadedState item w)))"
  using assms by (simp add: Value_def Let_def loadedState_def)

lemma loadedState_simps:
  "heap (loadedState item w) = heap w @ [item]"
  "tbl (loadedState item w) = tbl w"
  "trace (loadedState item w) = trace w"
  "triggers ls (loadedState item w) = triggers ls w"
  by (simp_all add: loadedState_def triggers_def)

subsection \<open>The most accessed items\<close>

text \<open>The second loop looks at the first \<open>count - c\<close> pairs and keeps those whose key is
  in the map.\<close>

lemma resolve_take:
  "resolve its p c count r = r @ List.map_filter its (map Key (take (nat (count - c)) p))"
proof (induction p arbitrary: c r)
  case Nil
  show ?case by (simp add: List.map_filter_simps)
next
  case (Cons v p)
  show ?case
  proof (cases "c \<ge> count")
    case True
    then show ?thesis by (simp add: List.map_filter_simps)
  next
    case False
    then have n: "nat (count - c) = Suc (nat (count - (c + 1)))" by simp
    from False show ?thesis
      by (simp add: Cons.IH n List.map_filter_simps split: option.splits)
  qed
qed

lemma snapshot_map:
  "set ks \<subseteq> dom (items (tbl w)) \<Longrightarrow>
   snapshot w ks = map (\<lambda>k. \<lparr>Key = k, AccessCount = countOf w k\<rparr>) ks"
  by (induction ks) (auto simp: countOf_def)

lemma map_filter_total:
  "(\<And>x. x \<in> set xs \<Longrightarrow> f x \<noteq> None) \<Longrightarrow> List.map_filter f xs = map (\<lambda>x. the (f x)) xs"
proof (induction xs)
  case Nil
  show ?case by (simp add: List.map_filter_simps)
next
  case (Cons a xs)
  from Cons.prems [of a] obtain y where "f a = Some y" by auto
  moreover have "List.map_filter f xs = map (\<lambda>x. the (f x)) xs"
    by (rule Cons.IH) (simp add: Cons.prems)
  ultimately show ?case by (simp add: List.map_filter_simps)
qed

text \<open>The insertion sort keeps the pairs, each as many times as before.\<close>

lemma set_moveDown: "set (moveDown x ys) = insert x (set ys)"
  by (induction ys) auto

lemma length_moveDown: "length (moveDown x ys) = Suc (length ys)"
  by (induction ys) auto

lemma count_list_moveDown: "count_list (moveDown x ys) v = count_list (x # ys) v"
  by (induction ys) auto

lemma distinct_map_moveDown:
  "distinct (map f (moveDown x ys)) = (f x \<notin> f ` set ys \<and> distinct (map f ys))"
  by (induction ys) (auto simp: set_moveDown)

lemma set_foldl_moveDown:
  "set (foldl (\<lambda>sorted x. moveDown x sorted) acc p) = set acc \<union> set p"
  by (induction p arbitrary: acc) (auto simp: set_moveDown)

lemma length_foldl_moveDown:
  "length (foldl (\<lambda>sorted x. moveDown x sorted) acc p) = length acc + length p"
  by (induction p arbitrary: acc) (auto simp: length_moveDown)

lemma count_list_foldl_moveDown:
  "count_list (foldl (\<lambda>sorted x. moveDown x sorted) acc p) v = count_list acc v + count_list p v"
  by (induction p arbitrary: acc) (auto simp: count_list_moveDown)

lemma distinct_map_foldl_moveDown:
  "distinct (map f (foldl (\<lambda>sorted x. moveDown x sorted) acc p)) = distinct (map f (acc @ p))"
proof (induction p arbitrary: acc)
  case Nil
  show ?case by simp
next
  case (Cons x p)
  have "distinct (map f (foldl (\<lambda>sorted x. moveDown x sorted) acc (x # p)))
        = distinct (map f (moveDown x acc @ p))"
    by (simp add: Cons.IH)
  also have "\<dots> = distinct (map f (acc @ x # p))"
    by (auto simp: distinct_map_moveDown set_moveDown)
  finally show ?case .
qed

text \<open>It orders them by \<open>Less\<close>: here the definition of \<open>Less\<close> is what makes the order one
  of descending counts.\<close>

lemma sorted_moveDown:
  "sorted_wrt (\<lambda>a b. \<not> Less a b) ys \<Longrightarrow> sorted_wrt (\<lambda>a b. \<not> Less a b) (moveDown x ys)"
  by (induction ys) (auto simp: set_moveDown Less_def)

lemma sorted_foldl_moveDown:
  "sorted_wrt (\<lambda>a b. \<not> Less a b) acc \<Longrightarrow>
   sorted_wrt (\<lambda>a b. \<not> Less a b) (foldl (\<lambda>sorted x. moveDown x sorted) acc p)"
  by (induction p arbitrary: acc) (auto simp: sorted_moveDown)

lemma set_sort_Sort: "set (sort_Sort p) = set p"
  by (simp add: sort_Sort_def insertionSort_def set_foldl_moveDown)

lemma length_sort_Sort: "length (sort_Sort p) = length p"
  by (simp add: sort_Sort_def insertionSort_def length_foldl_moveDown)

lemma distinct_map_sort_Sort: "distinct (map f (sort_Sort p)) = distinct (map f p)"
  by (simp add: sort_Sort_def insertionSort_def rev_map [symmetric] distinct_map_foldl_moveDown)

text \<open>What \<^verbatim>\<open>sort.Sort\<close> promises holds of the model of it: the same pairs, each as many
  times as before, and no pair before one that is \<open>Less\<close> than it.\<close>

lemma sort_Sort_contract:
  "count_list (sort_Sort p) v = count_list p v
   \<and> sorted_wrt (\<lambda>x y. \<not> Less y x) (sort_Sort p)"
proof -
  have "sorted_wrt (\<lambda>a b. \<not> Less a b) (foldl (\<lambda>sorted x. moveDown x sorted) [] p)"
    by (rule sorted_foldl_moveDown) simp
  then have "sorted_wrt (\<lambda>x y. \<not> Less y x) (sort_Sort p)"
    by (simp add: sort_Sort_def insertionSort_def sorted_wrt_rev)
  moreover have "count_list (sort_Sort p) v = count_list p v"
    by (simp add: sort_Sort_def insertionSort_def count_list_foldl_moveDown)
  ultimately show ?thesis by simp
qed

text \<open>With counts that all differ, the sorted snapshot goes strictly down.\<close>

lemma sorted_snapshot:
  assumes ro: "range_order ks (items (tbl w))"
      and inj: "inj_on (countOf w) (dom (items (tbl w)))"
  shows "sorted_wrt (\<lambda>x y. AccessCount x > AccessCount y) (sort_Sort (snapshot w ks))"
proof -
  let ?mk = "\<lambda>k. \<lparr>Key = k, AccessCount = countOf w k\<rparr>"
  let ?f = "\<lambda>v::'a CacheItemPair. - AccessCount v"
  from ro have ks: "distinct ks" "set ks = dom (items (tbl w))"
    by (simp_all add: range_order_def)
  have snap: "snapshot w ks = map ?mk ks"
    using ks by (intro snapshot_map) simp
  have "map ?f (snapshot w ks) = map (\<lambda>k. - countOf w k) ks"
    by (simp add: snap)
  moreover have "distinct (map (\<lambda>k. - countOf w k) ks)"
    using ks inj by (auto simp: distinct_map inj_on_def)
  ultimately have d: "distinct (map ?f (snapshot w ks))" by simp
  have "distinct (map ?f (sort_Sort (snapshot w ks)))"
    using d by (simp add: distinct_map_sort_Sort)
  moreover have "sorted_wrt (\<lambda>x y. \<not> Less y x) (sort_Sort (snapshot w ks))"
    using sort_Sort_contract [of "snapshot w ks"] by simp
  then have "sorted (map ?f (sort_Sort (snapshot w ks)))"
    by (simp add: sorted_wrt_map Less_def not_less)
  ultimately have "sorted_wrt (<) (map ?f (sort_Sort (snapshot w ks)))"
    by (simp add: strict_sorted_iff)
  then show ?thesis
    by (simp add: sorted_wrt_map)
qed

subsection \<open>Evaluating the examples\<close>

lemmas eval_defs = Cache_def NewCacheItem_def expirationCheck_def expirationLoop_Cons
  expired_def remaining_def nextSmallest_def deleteInternal_def stopTimer_def time_Sub_def
  int64_max_def int64_min_def wrap64_def

lemmas run_defs = Add_def addInternal_def NotFoundAdd_def Value_def KeepAlive_def Count_def
  Exists_def triggers_def eval_defs

lemma w_rank_most: "MostAccessed 2 [''a'', ''b'', ''c'', ''d''] w_rank = [2, 0]"
  by (simp add: MostAccessed_def sort_Sort_def insertionSort_def Less_def w_rank_def Cache_def
      NewCacheItem_def)

lemma w_rank_inj: "inj_on (countOf w_rank) (dom (items (tbl w_rank)))"
  by (simp add: w_rank_def Cache_def NewCacheItem_def countOf_def)

section \<open>Properties\<close>

text \<open>
  C1. \<^verbatim>\<open>Value\<close> on a key of the table returns the stored item, the very address held by the
  map, after \<^verbatim>\<open>KeepAlive\<close>: the item's \<^verbatim>\<open>accessedOn\<close> is the time of the call and its
  \<^verbatim>\<open>accessCount\<close> is one more (the \<^verbatim>\<open>int64\<close> increment of Go, which is \<open>+ 1\<close> below the
  largest \<^verbatim>\<open>int64\<close>); the table and the trace are as before. On a key that is not in the
  table, without a loader the result is \<open>ErrKeyNotFound\<close>, and with a loader that returns
  \<^verbatim>\<open>nil\<close> it is \<open>ErrKeyNotFoundOrLoadable\<close>; the state is unchanged in both cases.
\<close>

theorem Value_cases:
  "(items (tbl w) k = Some r \<and> r < length (heap w) \<longrightarrow>
      fst (Value t now ks k args w) = Inr r
      \<and> heap (snd (Value t now ks k args w)) =
          (heap w)[r := (heap w ! r)\<lparr>accessedOn := t,
                                      accessCount := wrap64 (accessCount (heap w ! r) + 1)\<rparr>]
      \<and> accessedOn (heap (snd (Value t now ks k args w)) ! r) = t
      \<and> accessCount (heap (snd (Value t now ks k args w)) ! r)
          = wrap64 (accessCount (heap w ! r) + 1)
      \<and> (int64_min \<le> accessCount (heap w ! r) \<and> accessCount (heap w ! r) < int64_max \<longrightarrow>
           accessCount (heap (snd (Value t now ks k args w)) ! r) = accessCount (heap w ! r) + 1)
      \<and> tbl (snd (Value t now ks k args w)) = tbl w
      \<and> trace (snd (Value t now ks k args w)) = trace w)
   \<and> (items (tbl w) k = None \<and> loadData (tbl w) = None \<longrightarrow>
        Value t now ks k args w = (Inl ErrKeyNotFound, w))
   \<and> (items (tbl w) k = None \<and> loadData (tbl w) = Some f \<and> f k args = None \<longrightarrow>
        Value t now ks k args w = (Inl ErrKeyNotFoundOrLoadable, w))"
  by (simp add: Value_def KeepAlive_def wrap64_id)

text \<open>The scenario of the specification: \<open>Add("a", 50ms, "v1")\<close> on an empty table, then
  \<^verbatim>\<open>Value("a")\<close>, gives the item with the value \<open>v1\<close> and the access count 1. The other two
  cases, on an empty table without a loader and with a loader that finds nothing.\<close>

theorem Value_cases_witness:
  "items (tbl (snd (Add 0 0 [''a''] ''a'' 50000000 ''v1'' w_empty))) ''a'' = Some 0
   \<and> accessCount (heap (snd (Add 0 0 [''a''] ''a'' 50000000 ''v1'' w_empty)) ! 0) = 0
   \<and> fst (Value 1 1 [] ''a'' [] (snd (Add 0 0 [''a''] ''a'' 50000000 ''v1'' w_empty))) = Inr 0
   \<and> accessCount (heap (snd (Value 1 1 [] ''a'' []
        (snd (Add 0 0 [''a''] ''a'' 50000000 ''v1'' w_empty)))) ! 0) = 1
   \<and> data (heap (snd (Value 1 1 [] ''a'' []
        (snd (Add 0 0 [''a''] ''a'' 50000000 ''v1'' w_empty)))) ! 0) = ''v1''
   \<and> items (tbl w_empty) ''x'' = None \<and> loadData (tbl w_empty) = None
   \<and> Value 1 1 [] ''x'' [] w_empty = (Inl ErrKeyNotFound, w_empty)
   \<and> items (tbl w_noload) ''x'' = None \<and> loadData (tbl w_noload) = Some failing_loader
   \<and> failing_loader ''x'' [] = None
   \<and> Value 1 1 [] ''x'' [] w_noload = (Inl ErrKeyNotFoundOrLoadable, w_noload)"
proof -
  let ?w1 = "snd (Add 0 0 [''a''] ''a'' 50000000 ''v1'' w_empty)"
  have a: "items (tbl ?w1) ''a'' = Some 0" "heap ?w1 = [NewCacheItem 0 ''a'' 50000000 ''v1'']"
    by (simp_all add: w_empty_def run_defs)
  have b: "items (tbl w_empty) ''x'' = None" "loadData (tbl w_empty) = None"
    by (simp_all add: w_empty_def Cache_def)
  have c: "items (tbl w_noload) ''x'' = None" "loadData (tbl w_noload) = Some failing_loader"
    "failing_loader ''x'' [] = None"
    by (simp_all add: w_noload_def Cache_def failing_loader_def)
  from Value_cases [of ?w1 "''a''" 0 1 1 "[]" "[]" failing_loader]
       Value_cases [of w_empty "''x''" 0 1 1 "[]" "[]" failing_loader]
       Value_cases [of w_noload "''x''" 0 1 1 "[]" "[]" failing_loader]
       a b c
  show ?thesis by (simp add: NewCacheItem_def int64_min_def int64_max_def)
qed

text \<open>
  C2. On a key that is not in the table, with a loader that returns an item, \<^verbatim>\<open>Value\<close>
  returns the loader's item, and its effect on the state is that of \<^verbatim>\<open>Add\<close> called with the
  key, the life span and the data of that item. \<^verbatim>\<open>Add\<close> builds a new item from them: under
  the key of the loaded item the map gets another object, with the same key, life span
  and data, the time of the \<^verbatim>\<open>Add\<close> as its two times, the access count 0 and no callback;
  the \<^verbatim>\<open>addedItem\<close> callbacks are called on that object (the state \<open>addedState\<close>), and the
  expiration check follows if the life span starts one. The map never holds the returned
  item under the key, and holds it nowhere when every address of the map is an address of
  the heap. With no check the map afterwards is the old one with the new object under the
  key of the loaded item, and \<^verbatim>\<open>Exists\<close> of that key holds; after a check the map has lost
  exactly its expired items, and \<^verbatim>\<open>Exists\<close> of that key holds unless the new object is
  expired already.
\<close>

theorem Value_loads:
  assumes "items (tbl w) k = None" and "loadData (tbl w) = Some f" and "f k args = Some item"
  shows "fst (Value t now ks k args w) = Inr (length (heap w))
       \<and> snd (Value t now ks k args w) =
           snd (Add t now ks (key item) (lifeSpan item) (data item) (loadedState item w))
       \<and> snd (Value t now ks k args w) =
           (if triggers (lifeSpan item) w
            then expirationCheck now ks
                   (addedState t (key item) (lifeSpan item) (data item) (loadedState item w))
            else addedState t (key item) (lifeSpan item) (data item) (loadedState item w))
       \<and> heap (addedState t (key item) (lifeSpan item) (data item) (loadedState item w))
           = heap w @ [item, NewCacheItem t (key item) (lifeSpan item) (data item)]
       \<and> items (tbl (addedState t (key item) (lifeSpan item) (data item) (loadedState item w)))
           = (items (tbl w))(key item \<mapsto> Suc (length (heap w)))
       \<and> trace (addedState t (key item) (lifeSpan item) (data item) (loadedState item w))
           = trace w @ map (\<lambda>cb. AddedItemCall cb (Suc (length (heap w)))) (addedItem (tbl w))
       \<and> heap (snd (Value t now ks k args w))
           = heap w @ [item, NewCacheItem t (key item) (lifeSpan item) (data item)]
       \<and> items (tbl (snd (Value t now ks k args w))) (key item) \<noteq> Some (length (heap w))
       \<and> ((\<forall>a \<in> ran (items (tbl w)). a < length (heap w)) \<longrightarrow>
            (\<forall>k'. items (tbl (snd (Value t now ks k args w))) k' \<noteq> Some (length (heap w))))
       \<and> (\<not> triggers (lifeSpan item) w \<longrightarrow>
            items (tbl (snd (Value t now ks k args w)))
              = (items (tbl w))(key item \<mapsto> Suc (length (heap w)))
            \<and> trace (snd (Value t now ks k args w))
              = trace w @ map (\<lambda>cb. AddedItemCall cb (Suc (length (heap w)))) (addedItem (tbl w))
            \<and> Exists (key item) (snd (Value t now ks k args w)))
       \<and> (triggers (lifeSpan item) w
            \<and> range_order ks ((items (tbl w))(key item \<mapsto> Suc (length (heap w)))) \<longrightarrow>
            (\<forall>k'. items (tbl (snd (Value t now ks k args w))) k' =
                    (case ((items (tbl w))(key item \<mapsto> Suc (length (heap w)))) k' of
                       None \<Rightarrow> None
                     | Some a \<Rightarrow>
                         if expired now
                              ((heap w @ [item, NewCacheItem t (key item) (lifeSpan item)
                                                  (data item)]) ! a)
                         then None else Some a))
            \<and> trace (snd (Value t now ks k args w)) =
                trace w @ map (\<lambda>cb. AddedItemCall cb (Suc (length (heap w)))) (addedItem (tbl w))
                  @ concat (map (deleteEvents now
                      (addedState t (key item) (lifeSpan item) (data item) (loadedState item w)))
                      ks))
       \<and> (\<not> expired now (NewCacheItem t (key item) (lifeSpan item) (data item)) \<longrightarrow>
            items (tbl (snd (Value t now ks k args w))) (key item) = Some (Suc (length (heap w)))
            \<and> Exists (key item) (snd (Value t now ks k args w)))"
proof -
  let ?w1 = "loadedState item w"
  let ?A = "Add t now ks (key item) (lifeSpan item) (data item) ?w1"
  let ?S = "addedState t (key item) (lifeSpan item) (data item) ?w1"
  let ?new = "NewCacheItem t (key item) (lifeSpan item) (data item)"
  let ?p = "length (heap w)"
  let ?onadd = "map (\<lambda>cb. AddedItemCall cb (Suc ?p)) (addedItem (tbl w))"
  have v: "Value t now ks k args w = (Inr ?p, snd ?A)"
    by (rule Value_eq [OF assms])
  have c1: "fst (Value t now ks k args w) = Inr ?p" by (simp add: v)
  have c2: "snd (Value t now ks k args w) = snd ?A" by (simp add: v)
  have c3: "snd ?A = (if triggers (lifeSpan item) w then expirationCheck now ks ?S else ?S)"
    by (simp add: Add_state loadedState_simps)
  have c4: "heap ?S = heap w @ [item, ?new]
            \<and> items (tbl ?S) = (items (tbl w))(key item \<mapsto> Suc ?p)
            \<and> trace ?S = trace w @ ?onadd"
    by (simp add: addedState_simps loadedState_simps)
  have c5: "heap (snd ?A) = heap w @ [item, ?new]"
    by (simp add: Add_heap loadedState_simps)
  have c6: "items (tbl (snd ?A)) (key item) \<noteq> Some ?p"
    using Add_new_or_gone [of t now ks "key item" "lifeSpan item" "data item" ?w1 ?p]
    by (auto simp: loadedState_simps)
  have sub: "items (tbl ?S) k' = Some a" if "items (tbl (snd ?A)) k' = Some a" for k' a
  proof (cases "triggers (lifeSpan item) w")
    case False
    with that show ?thesis by (simp add: c3)
  next
    case True
    with that have "items (tbl (expirationCheck now ks ?S)) k' = Some a" by (simp add: c3)
    then show ?thesis
      unfolding expirationCheck_items by (auto dest: expirationLoop_only_deletes)
  qed
  have c7: "(\<forall>a \<in> ran (items (tbl w)). a < ?p) \<longrightarrow>
              (\<forall>k'. items (tbl (snd ?A)) k' \<noteq> Some ?p)"
  proof (intro impI allI notI)
    fix k'
    assume wf: "\<forall>a \<in> ran (items (tbl w)). a < ?p" and "items (tbl (snd ?A)) k' = Some ?p"
    then have "items (tbl ?S) k' = Some ?p" by (simp add: sub)
    then have "k' \<noteq> key item \<and> items (tbl w) k' = Some ?p"
      using c4 by (auto split: if_splits)
    then have "?p \<in> ran (items (tbl w))" by (auto simp: ran_def)
    with wf show False by auto
  qed
  have c8: "\<not> triggers (lifeSpan item) w \<longrightarrow>
              items (tbl (snd ?A)) = (items (tbl w))(key item \<mapsto> Suc ?p)
              \<and> trace (snd ?A) = trace w @ ?onadd
              \<and> Exists (key item) (snd ?A)"
    using c4 by (simp add: c3 Exists_def)
  have c9: "triggers (lifeSpan item) w
            \<and> range_order ks ((items (tbl w))(key item \<mapsto> Suc ?p)) \<longrightarrow>
            (\<forall>k'. items (tbl (snd ?A)) k' =
                    (case ((items (tbl w))(key item \<mapsto> Suc ?p)) k' of
                       None \<Rightarrow> None
                     | Some a \<Rightarrow>
                         if expired now ((heap w @ [item, ?new]) ! a) then None else Some a))
            \<and> trace (snd ?A) = trace w @ ?onadd @ concat (map (deleteEvents now ?S) ks)"
    using Add_sweeps [of "lifeSpan item" ?w1 ks "key item" t now "data item"]
    by (simp add: loadedState_simps cong: option.case_cong)
  have c10: "\<not> expired now ?new \<longrightarrow>
              items (tbl (snd ?A)) (key item) = Some (Suc ?p) \<and> Exists (key item) (snd ?A)"
    using Add_keeps_new [of now t "key item" "lifeSpan item" "data item" ks ?w1]
    by (simp add: loadedState_simps Exists_def)
  show ?thesis
    unfolding c2
    by (intro conjI) (use c1 c3 c4 c5 c6 c7 c8 c9 c10 in blast)+
qed

text \<open>The scenario of the specification, a loader \<open>f(key) = Entry(key, 0, "loaded:" + key)\<close>
  and \<^verbatim>\<open>Value("missing")\<close>, where no check starts; and a loader whose items live 1 ns, with
  the check at the very time of the \<^verbatim>\<open>Add\<close>.\<close>

theorem Value_loads_witness:
  "items (tbl w_load) ''missing'' = None
   \<and> loadData (tbl w_load) = Some example_loader
   \<and> example_loader ''missing'' [] = Some (NewCacheItem 0 ''missing'' 0 ''loaded:missing'')
   \<and> fst (Value 1 2 [''missing''] ''missing'' [] w_load) = Inr 0
   \<and> data (heap (snd (Value 1 2 [''missing''] ''missing'' [] w_load)) ! 0) = ''loaded:missing''
   \<and> items (tbl (snd (Value 1 2 [''missing''] ''missing'' [] w_load))) ''missing'' = Some 1
   \<and> Exists ''missing'' (snd (Value 1 2 [''missing''] ''missing'' [] w_load))
   \<and> (\<forall>k'. items (tbl (snd (Value 1 2 [''missing''] ''missing'' [] w_load))) k' \<noteq> Some 0)
   \<and> items (tbl w_brief) ''missing'' = None
   \<and> loadData (tbl w_brief) = Some brief_loader
   \<and> brief_loader ''missing'' [] = Some (NewCacheItem 0 ''missing'' 1 ''v'')
   \<and> triggers 1 w_brief
   \<and> range_order [''missing''] ((items (tbl w_brief))(''missing'' \<mapsto> Suc (length (heap w_brief))))
   \<and> fst (Value 1 1 [''missing''] ''missing'' [] w_brief) = Inr 0
   \<and> items (tbl (snd (Value 1 1 [''missing''] ''missing'' [] w_brief))) ''missing'' = Some 1
   \<and> trace (snd (Value 1 1 [''missing''] ''missing'' [] w_brief)) = []"
proof -
  have h1: "items (tbl w_load) ''missing'' = None" by (simp add: w_load_def Cache_def)
  have h2: "loadData (tbl w_load) = Some example_loader" by (simp add: w_load_def Cache_def)
  have h3: "example_loader ''missing'' [] = Some (NewCacheItem 0 ''missing'' 0 ''loaded:missing'')"
    by (simp add: example_loader_def)
  have n: "\<not> triggers (lifeSpan (NewCacheItem 0 ''missing'' 0 ''loaded:missing'')) w_load"
    by (simp add: triggers_def NewCacheItem_def)
  have l: "heap w_load = []" "items (tbl w_load) = Map.empty"
    by (simp_all add: w_load_def Cache_def)
  from Value_loads [OF h1 h2 h3, of 1 2 "[''missing'']"] n
  have a: "fst (Value 1 2 [''missing''] ''missing'' [] w_load) = Inr (length (heap w_load))"
    "heap (snd (Value 1 2 [''missing''] ''missing'' [] w_load))
       = heap w_load @ [NewCacheItem 0 ''missing'' 0 ''loaded:missing'',
           NewCacheItem 1 (key (NewCacheItem 0 ''missing'' 0 ''loaded:missing''))
             (lifeSpan (NewCacheItem 0 ''missing'' 0 ''loaded:missing''))
             (data (NewCacheItem 0 ''missing'' 0 ''loaded:missing''))]"
    "items (tbl (snd (Value 1 2 [''missing''] ''missing'' [] w_load)))
       = (items (tbl w_load))(key (NewCacheItem 0 ''missing'' 0 ''loaded:missing'')
            \<mapsto> Suc (length (heap w_load)))"
    "Exists (key (NewCacheItem 0 ''missing'' 0 ''loaded:missing''))
       (snd (Value 1 2 [''missing''] ''missing'' [] w_load))"
    by blast+
  have wf: "\<forall>a \<in> ran (items (tbl w_load)). a < length (heap w_load)"
    by (simp add: l)
  from Value_loads [OF h1 h2 h3, of 1 2 "[''missing'']"] wf
  have a5: "\<forall>k'. items (tbl (snd (Value 1 2 [''missing''] ''missing'' [] w_load))) k'
              \<noteq> Some (length (heap w_load))"
    by blast
  have g1: "items (tbl w_brief) ''missing'' = None" by (simp add: w_brief_def Cache_def)
  have g2: "loadData (tbl w_brief) = Some brief_loader" by (simp add: w_brief_def Cache_def)
  have g3: "brief_loader ''missing'' [] = Some (NewCacheItem 0 ''missing'' 1 ''v'')"
    by (simp add: brief_loader_def)
  have m: "heap w_brief = []" "items (tbl w_brief) = Map.empty" "trace w_brief = []"
    "addedItem (tbl w_brief) = []" "aboutToDeleteItem (tbl w_brief) = []"
    by (simp_all add: w_brief_def Cache_def)
  have tr: "triggers 1 w_brief" by (simp add: triggers_def w_brief_def Cache_def)
  then have tr': "triggers (lifeSpan (NewCacheItem 0 ''missing'' 1 ''v'')) w_brief"
    by (simp add: NewCacheItem_def)
  have ro: "range_order [''missing'']
      ((items (tbl w_brief))(''missing'' \<mapsto> Suc (length (heap w_brief))))"
    by (simp add: range_order_def m)
  then have ro': "range_order [''missing'']
      ((items (tbl w_brief))(key (NewCacheItem 0 ''missing'' 1 ''v'')
          \<mapsto> Suc (length (heap w_brief))))"
    by (simp add: NewCacheItem_def)
  from Value_loads [OF g1 g2 g3, of 1 1 "[''missing'']"] tr' ro'
  have b: "fst (Value 1 1 [''missing''] ''missing'' [] w_brief) = Inr (length (heap w_brief))"
    "\<forall>k'. items (tbl (snd (Value 1 1 [''missing''] ''missing'' [] w_brief))) k' =
       (case ((items (tbl w_brief))(key (NewCacheItem 0 ''missing'' 1 ''v'')
                \<mapsto> Suc (length (heap w_brief)))) k' of
          None \<Rightarrow> None
        | Some a \<Rightarrow>
            if expired 1 ((heap w_brief @ [NewCacheItem 0 ''missing'' 1 ''v'',
                 NewCacheItem 1 (key (NewCacheItem 0 ''missing'' 1 ''v''))
                   (lifeSpan (NewCacheItem 0 ''missing'' 1 ''v''))
                   (data (NewCacheItem 0 ''missing'' 1 ''v''))]) ! a)
            then None else Some a)"
    "trace (snd (Value 1 1 [''missing''] ''missing'' [] w_brief)) =
       trace w_brief
         @ map (\<lambda>cb. AddedItemCall cb (Suc (length (heap w_brief)))) (addedItem (tbl w_brief))
         @ concat (map (deleteEvents 1
             (addedState 1 (key (NewCacheItem 0 ''missing'' 1 ''v''))
                (lifeSpan (NewCacheItem 0 ''missing'' 1 ''v''))
                (data (NewCacheItem 0 ''missing'' 1 ''v''))
                (loadedState (NewCacheItem 0 ''missing'' 1 ''v'') w_brief)))
             [''missing''])"
    by blast+
  have b2: "items (tbl (snd (Value 1 1 [''missing''] ''missing'' [] w_brief))) ''missing'' = Some 1"
    using b(2) [rule_format, of "''missing''"]
    by (simp add: m expired_def NewCacheItem_def time_Sub_def int64_max_def int64_min_def)
  have b3: "trace (snd (Value 1 1 [''missing''] ''missing'' [] w_brief)) = []"
    using b(3)
    by (simp add: m deleteEvents_def addedState_def loadedState_def expired_def NewCacheItem_def
        time_Sub_def int64_max_def int64_min_def)
  from a a5 b(1) b2 b3 h1 h2 h3 g1 g2 g3 tr ro l m show ?thesis
    by (simp add: NewCacheItem_def)
qed

text \<open>Three runs. In the scenario of the specification the item returned is at address 0
  and the item stored under the key is at address 1: two objects, created at different
  times. With a loader that answers under another key, the key asked for is not in the
  table afterwards. With a loader whose items live 1 ns and 5 ns between the \<^verbatim>\<open>Add\<close> and
  its expiration check, the key is not in the table afterwards either.\<close>

theorem Value_loads_other_entry:
  "items (tbl w_load) ''missing'' = None
   \<and> fst (Value 1 2 [''missing''] ''missing'' [] w_load) = Inr 0
   \<and> items (tbl (snd (Value 1 2 [''missing''] ''missing'' [] w_load))) ''missing'' = Some 1
   \<and> createdOn (heap (snd (Value 1 2 [''missing''] ''missing'' [] w_load)) ! 0) = 0
   \<and> createdOn (heap (snd (Value 1 2 [''missing''] ''missing'' [] w_load)) ! 1) = 1
   \<and> items (tbl w_alias) ''missing'' = None
   \<and> fst (Value 1 2 [''alias:missing''] ''missing'' [] w_alias) = Inr 0
   \<and> \<not> Exists ''missing'' (snd (Value 1 2 [''alias:missing''] ''missing'' [] w_alias))
   \<and> items (tbl (snd (Value 1 2 [''alias:missing''] ''missing'' [] w_alias))) ''alias:missing''
       = Some 1
   \<and> items (tbl w_brief) ''missing'' = None
   \<and> fst (Value 1 6 [''missing''] ''missing'' [] w_brief) = Inr 0
   \<and> \<not> Exists ''missing'' (snd (Value 1 6 [''missing''] ''missing'' [] w_brief))"
  by (simp add: w_load_def w_alias_def w_brief_def example_loader_def alias_loader_def
      brief_loader_def run_defs)

text \<open>
  C3. For every state, every time \<open>now\<close> and every order in which the loop may
  visit the map, one expiration check removes exactly the items whose life span is not 0
  and for which \<^verbatim>\<open>now.Sub(accessedOn)\<close> is greater than the life span; it changes no item. An
  item with the life span 0 stays whatever the time, and so does an item with a positive
  life span that \<^verbatim>\<open>now.Sub(accessedOn)\<close> does not exceed.
\<close>

theorem expirationCheck_exact:
  assumes "range_order ks (items (tbl w))"
  shows "heap (expirationCheck now ks w) = heap w
       \<and> items (tbl (expirationCheck now ks w)) k =
          (case items (tbl w) k of
             None \<Rightarrow> None
           | Some a \<Rightarrow>
               if lifeSpan (heap w ! a) \<noteq> 0
                  \<and> time_Sub now (accessedOn (heap w ! a)) > lifeSpan (heap w ! a)
               then None else Some a)
       \<and> (\<forall>a. items (tbl w) k = Some a \<and> lifeSpan (heap w ! a) = 0 \<longrightarrow>
            items (tbl (expirationCheck now ks w)) k = Some a)
       \<and> (\<forall>a. items (tbl w) k = Some a \<and> lifeSpan (heap w ! a) > 0
              \<and> time_Sub now (accessedOn (heap w ! a)) \<le> lifeSpan (heap w ! a) \<longrightarrow>
            items (tbl (expirationCheck now ks w)) k = Some a)"
  using expirationCheck_items_exact [OF assms, of now k]
  by (auto simp add: expirationCheck_heap expired_def split: option.splits)

theorem expirationCheck_exact_witness:
  "range_order [''forever'', ''fresh'', ''stale'', ''neg''] (items (tbl w_sweep))
   \<and> items (tbl (expirationCheck 100 [''forever'', ''fresh'', ''stale'', ''neg''] w_sweep))
        ''forever'' = Some 0
   \<and> items (tbl (expirationCheck 100 [''forever'', ''fresh'', ''stale'', ''neg''] w_sweep))
        ''fresh'' = Some 1
   \<and> items (tbl (expirationCheck 100 [''forever'', ''fresh'', ''stale'', ''neg''] w_sweep))
        ''stale'' = None
   \<and> items (tbl (expirationCheck 100 [''forever'', ''fresh'', ''stale'', ''neg''] w_sweep))
        ''neg'' = None"
proof -
  have ro: "range_order [''forever'', ''fresh'', ''stale'', ''neg''] (items (tbl w_sweep))"
    by (auto simp add: range_order_def w_sweep_def Cache_def)
  have w: "items (tbl w_sweep) = [''forever'' \<mapsto> 0, ''fresh'' \<mapsto> 1, ''stale'' \<mapsto> 2, ''neg'' \<mapsto> 3]"
    "heap w_sweep = [NewCacheItem 0 ''forever'' 0 ''v'', NewCacheItem 90 ''fresh'' 20 ''v'',
              NewCacheItem 0 ''stale'' 20 ''v'', NewCacheItem 0 ''neg'' (- 1) ''v'']"
    by (simp_all add: w_sweep_def Cache_def)
  from expirationCheck_exact [OF ro, of 100 "''forever''"]
       expirationCheck_exact [OF ro, of 100 "''fresh''"]
       expirationCheck_exact [OF ro, of 100 "''stale''"]
       expirationCheck_exact [OF ro, of 100 "''neg''"] ro
  show ?thesis
    by (simp add: w NewCacheItem_def time_Sub_def int64_max_def int64_min_def)
qed

text \<open>An item with the life span \<open>-1\<close> is removed, though its life span is not greater
  than 0.\<close>

theorem expirationCheck_negative_ttl:
  "range_order [''neg''] (items (tbl w_neg))
   \<and> items (tbl w_neg) ''neg'' = Some 0
   \<and> \<not> lifeSpan (heap w_neg ! 0) > 0
   \<and> items (tbl (expirationCheck 0 [''neg''] w_neg)) ''neg'' = None"
  by (simp add: w_neg_def range_order_def eval_defs)

text \<open>
  C4. After an expiration check \<^verbatim>\<open>cleanupInterval\<close> should be the smallest time left among
  the items that stay. In \<open>w_tie\<close> at time 10 both items stay, \<open>a\<close> with 0 ns left and \<open>b\<close>
  with 15: visiting \<open>a\<close> first the check ends with the interval 15, which is not the
  smallest time left, and visiting \<open>b\<close> first it ends with 0. The loop reads a
  \<^verbatim>\<open>smallestDuration\<close> of 0 as "none yet", so the 0 ns of \<open>a\<close> is overwritten by the next
  item.
\<close>

theorem expirationCheck_zero_remaining:
  "range_order [''a'', ''b''] (items (tbl w_tie))
   \<and> range_order [''b'', ''a''] (items (tbl w_tie))
   \<and> items (tbl (expirationCheck 10 [''a'', ''b''] w_tie)) = items (tbl w_tie)
   \<and> items (tbl (expirationCheck 10 [''b'', ''a''] w_tie)) = items (tbl w_tie)
   \<and> lifeSpan (heap w_tie ! 0) - time_Sub 10 (accessedOn (heap w_tie ! 0)) = 0
   \<and> lifeSpan (heap w_tie ! 1) - time_Sub 10 (accessedOn (heap w_tie ! 1)) = 15
   \<and> cleanupInterval (tbl (expirationCheck 10 [''a'', ''b''] w_tie)) = 15
   \<and> cleanupInterval (tbl (expirationCheck 10 [''b'', ''a''] w_tie)) = 0"
  by (auto simp add: w_tie_def range_order_def eval_defs)

text \<open>Apart from that case the interval is the one intended: when every item that the
  check keeps and whose life span is not 0 has a positive time left, the check ends with
  the smallest of those times, or with 0 when there is no such item.\<close>

lemma expirationCheck_smallest:
  assumes ro: "range_order ks (items (tbl w))"
      and pos: "\<forall>k. kept now w k \<longrightarrow> 0 < remainingOf now w k"
  shows "cleanupInterval (tbl (expirationCheck now ks w)) =
           (if \<forall>k. \<not> kept now w k then 0 else Min (remainingOf now w ` {k. kept now w k}))"
proof -
  let ?w1 = "w\<lparr>tbl := (tbl w)\<lparr>cleanupTimer := stopTimer (cleanupTimer (tbl w))\<rparr>\<rparr>"
  let ?rs = "map (remainingOf now w) (filter (kept now w) ks)"
  have k1: "kept now ?w1 = kept now w" by (rule ext) (simp add: kept_def split: option.splits)
  have r1: "remainingOf now ?w1 = remainingOf now w" by (rule ext) (simp add: remainingOf_def)
  from ro have ks: "set ks = dom (items (tbl w))" by (simp add: range_order_def)
  have sub: "kept now w k \<Longrightarrow> k \<in> set ks" for k
    unfolding ks by (auto simp: kept_def split: option.splits)
  then have set_rs: "set ?rs = remainingOf now w ` {k. kept now w k}" by auto
  have empty: "?rs = [] \<longleftrightarrow> (\<forall>k. \<not> kept now w k)"
    using sub by (auto simp: filter_empty_conv)
  have "cleanupInterval (tbl (expirationCheck now ks w)) = foldl smaller 0 ?rs"
    by (simp add: expirationCheck_interval expirationLoop_fst k1 r1)
  also have "\<dots> = (if ?rs = [] then 0 else Min (set ?rs))"
    using pos by (subst foldl_smaller_pos) auto
  finally show ?thesis
    unfolding set_rs empty .
qed

text \<open>
  C5. The second loop of \<^verbatim>\<open>MostAccessed\<close> looks at the first \<open>count\<close> pairs of the
  sorted snapshot and returns the items of those whose key is in the map. A key that is
  not in the map adds nothing to the result and still uses one of the \<open>count\<close> places, so
  the result can be shorter than \<open>count\<close> while keys that resolve come later in the list.
\<close>

theorem resolve_first_count:
  "resolve its p 0 count [] = List.map_filter its (map Key (take (nat count) p))"
  by (simp add: resolve_take)

theorem resolve_first_count_witness:
  "resolve [''b'' \<mapsto> 1, ''c'' \<mapsto> 2]
     [\<lparr>Key = ''b'', AccessCount = 5\<rparr>, \<lparr>Key = ''a'', AccessCount = 4\<rparr>,
      \<lparr>Key = ''c'', AccessCount = 3\<rparr>] 0 3 [] = [1, 2]"
  using resolve_first_count [of "[''b'' \<mapsto> 1, ''c'' \<mapsto> 2]"
     "[\<lparr>Key = ''b'', AccessCount = 5\<rparr>, \<lparr>Key = ''a'', AccessCount = 4\<rparr>,
       \<lparr>Key = ''c'', AccessCount = 3\<rparr>]" 3]
  by (simp add: List.map_filter_simps)

text \<open>With \<open>count = 2\<close> and a first key that is not in the map, one item comes back, where
  the same list without that key gives two.\<close>

theorem resolve_skip_counts:
  "resolve [''b'' \<mapsto> 1, ''c'' \<mapsto> 2]
     [\<lparr>Key = ''a'', AccessCount = 9\<rparr>, \<lparr>Key = ''b'', AccessCount = 5\<rparr>,
      \<lparr>Key = ''c'', AccessCount = 3\<rparr>] 0 2 [] = [1]
   \<and> resolve [''b'' \<mapsto> 1, ''c'' \<mapsto> 2]
     [\<lparr>Key = ''b'', AccessCount = 5\<rparr>, \<lparr>Key = ''c'', AccessCount = 3\<rparr>] 0 2 [] = [1, 2]"
  by simp

text \<open>
  C6. When the items of the table have access counts that all differ, \<^verbatim>\<open>MostAccessed(count)\<close>
  returns \<open>min count (Count)\<close> items of the table (none for a negative \<open>count\<close>), in strictly
  descending order of access count, and every item of the table that it leaves out has a
  smaller count than every item it returns. This holds for every order in which the first
  loop may visit the map.
\<close>

theorem MostAccessed_ranked:
  assumes ro: "range_order ks (items (tbl w))"
      and inj: "inj_on (countOf w) (dom (items (tbl w)))"
  shows "length (MostAccessed count ks w) = min (nat count) (Count w)
       \<and> sorted_wrt (>) (map (\<lambda>a. accessCount (heap w ! a)) (MostAccessed count ks w))
       \<and> set (MostAccessed count ks w) \<subseteq> ran (items (tbl w))
       \<and> (\<forall>k a. items (tbl w) k = Some a \<and> a \<notin> set (MostAccessed count ks w) \<longrightarrow>
            (\<forall>b \<in> set (MostAccessed count ks w).
               accessCount (heap w ! a) < accessCount (heap w ! b)))"
proof -
  let ?its = "items (tbl w)"
  let ?mk = "\<lambda>k. \<lparr>Key = k, AccessCount = countOf w k\<rparr>"
  define sp where "sp = sort_Sort (snapshot w ks)"
  define n where "n = nat count"
  let ?r = "MostAccessed count ks w"
  from ro have ks: "distinct ks" "set ks = dom ?its"
    by (simp_all add: range_order_def)
  have snap: "snapshot w ks = map ?mk ks"
    using ks by (intro snapshot_map) simp
  have set_sp: "set sp = ?mk ` set ks"
    by (simp add: sp_def set_sort_Sort snap)
  have len_sp: "length sp = length ks"
    by (simp add: sp_def length_sort_Sort snap)
  have srt: "sorted_wrt (\<lambda>x y. AccessCount x > AccessCount y) sp"
    unfolding sp_def by (rule sorted_snapshot [OF ro inj])
  have sp_elem: "Key v \<in> dom ?its \<and> AccessCount v = countOf w (Key v)" if "v \<in> set sp" for v
    using that ks by (auto simp: set_sp)
  have r_eq: "?r = map (\<lambda>v. the (?its (Key v))) (take n sp)"
  proof -
    have "?r = List.map_filter ?its (map Key (take n sp))"
      by (simp add: MostAccessed_def resolve_take sp_def n_def)
    also have "\<dots> = map (\<lambda>x. the (?its x)) (map Key (take n sp))"
    proof (rule map_filter_total)
      fix x assume "x \<in> set (map Key (take n sp))"
      then obtain v where "v \<in> set sp" "x = Key v" by (auto dest: in_set_takeD)
      with sp_elem [of v] show "?its x \<noteq> None" by auto
    qed
    finally show ?thesis by (simp add: comp_def)
  qed
  have cnt_r: "map (\<lambda>a. accessCount (heap w ! a)) ?r = map AccessCount (take n sp)"
    unfolding r_eq using sp_elem by (auto simp: countOf_def dest: in_set_takeD)
  have c1: "length ?r = min (nat count) (Count w)"
    using ks by (simp add: r_eq len_sp Count_def n_def distinct_card [symmetric] min.commute)
  have "sorted_wrt (\<lambda>x y. AccessCount x > AccessCount y) (take n sp)"
    using srt by (rule sorted_wrt_take)
  then have c2: "sorted_wrt (>) (map (\<lambda>a. accessCount (heap w ! a)) ?r)"
    by (simp add: cnt_r sorted_wrt_map)
  have c3: "set ?r \<subseteq> ran ?its"
  proof
    fix a assume "a \<in> set ?r"
    then obtain v where v: "v \<in> set sp" "a = the (?its (Key v))"
      unfolding r_eq by (auto dest: in_set_takeD)
    with sp_elem [of v] show "a \<in> ran ?its" by (auto simp: ran_def)
  qed
  have c4: "accessCount (heap w ! a) < accessCount (heap w ! b)"
    if k: "?its k = Some a" and a: "a \<notin> set ?r" and b: "b \<in> set ?r" for k a b
  proof -
    from k ks have "?mk k \<in> set sp" by (auto simp: set_sp)
    moreover have "?mk k \<notin> set (take n sp)"
    proof
      assume "?mk k \<in> set (take n sp)"
      then have "the (?its (Key (?mk k))) \<in> (\<lambda>v. the (?its (Key v))) ` set (take n sp)"
        by (rule imageI)
      then have "the (?its k) \<in> set ?r" unfolding r_eq by simp
      with k a show False by simp
    qed
    ultimately have in_drop: "?mk k \<in> set (drop n sp)"
      using set_append [of "take n sp" "drop n sp"] by auto
    from b obtain v where v: "v \<in> set (take n sp)" "b = the (?its (Key v))"
      unfolding r_eq by auto
    from srt have "sorted_wrt (\<lambda>x y. AccessCount x > AccessCount y) (take n sp @ drop n sp)"
      by simp
    with v(1) in_drop have "AccessCount v > AccessCount (?mk k)"
      unfolding sorted_wrt_append by blast
    moreover from v(1) have "v \<in> set sp" by (rule in_set_takeD)
    ultimately show ?thesis
      using sp_elem [of v] k v(2) by (simp add: countOf_def)
  qed
  from c1 c2 c3 c4 show ?thesis by blast
qed

text \<open>Items with the access counts 5, 1, 9 and 3: \<^verbatim>\<open>MostAccessed(2)\<close> returns the item
  with 9, then the item with 5.\<close>

theorem MostAccessed_ranked_witness:
  "range_order [''a'', ''b'', ''c'', ''d''] (items (tbl w_rank))
   \<and> inj_on (countOf w_rank) (dom (items (tbl w_rank)))
   \<and> MostAccessed 2 [''a'', ''b'', ''c'', ''d''] w_rank = [2, 0]
   \<and> map (\<lambda>a. accessCount (heap w_rank ! a)) (MostAccessed 2 [''a'', ''b'', ''c'', ''d''] w_rank)
       = [9, 5]
   \<and> length (MostAccessed 2 [''a'', ''b'', ''c'', ''d''] w_rank) = min (nat 2) (Count w_rank)
   \<and> sorted_wrt (>) (map (\<lambda>a. accessCount (heap w_rank ! a))
        (MostAccessed 2 [''a'', ''b'', ''c'', ''d''] w_rank))"
proof -
  have ro: "range_order [''a'', ''b'', ''c'', ''d''] (items (tbl w_rank))"
    by (auto simp add: range_order_def w_rank_def Cache_def)
  have cnt: "map (\<lambda>a. accessCount (heap w_rank ! a)) [2, 0] = [9, 5]"
    by (simp add: w_rank_def NewCacheItem_def)
  from MostAccessed_ranked [OF ro w_rank_inj, of 2] ro w_rank_inj cnt
  show ?thesis by (simp add: w_rank_most)
qed

text \<open>
  C7. \<^verbatim>\<open>Delete\<close> of a key that is not in the table fails with \<open>ErrKeyNotFound\<close> and leaves
  the whole state as it was: the map, the items, the timer and the interval are the
  same and no callback is called. On an empty table every key is such a key.
\<close>

theorem Delete_absent:
  "items (tbl w) k = None \<Longrightarrow> Delete k w = (Inl ErrKeyNotFound, w)"
  by (simp add: Delete_def deleteInternal_def)

theorem Delete_absent_witness:
  "items (tbl w_empty) ''absent'' = None
   \<and> Delete ''absent'' w_empty = (Inl ErrKeyNotFound, w_empty)"
  using Delete_absent [of w_empty "''absent''"]
  by (simp add: w_empty_def Cache_def)

text \<open>
  C8. \<^verbatim>\<open>NotFoundAdd\<close> on a key of the table returns \<open>false\<close> and changes nothing. On a key
  that is not in the table it returns \<open>true\<close> after \<^verbatim>\<open>addInternal\<close> on a new item with the
  key, life span and data given: the item is put into the map under the key, the
  \<^verbatim>\<open>addedItem\<close> callbacks are called on it (the state \<open>addedState\<close>), and then the
  expiration check runs if the life span starts one. With no check the map afterwards is
  the old one with the new key added; after a check the new item is still under its key
  unless the check finds it expired already.
\<close>

theorem NotFoundAdd_cases:
  "(items (tbl w) k = Some r \<longrightarrow> NotFoundAdd t now ks k ls d w = (False, w))
   \<and> (items (tbl w) k = None \<longrightarrow>
        fst (NotFoundAdd t now ks k ls d w) = True
        \<and> snd (NotFoundAdd t now ks k ls d w) =
            (if triggers ls w then expirationCheck now ks (addedState t k ls d w)
             else addedState t k ls d w)
        \<and> items (tbl (addedState t k ls d w)) = (items (tbl w))(k \<mapsto> length (heap w))
        \<and> heap (addedState t k ls d w) ! length (heap w) = NewCacheItem t k ls d
        \<and> heap (snd (NotFoundAdd t now ks k ls d w)) = heap w @ [NewCacheItem t k ls d]
        \<and> (\<not> triggers ls w \<longrightarrow>
             items (tbl (snd (NotFoundAdd t now ks k ls d w)))
               = (items (tbl w))(k \<mapsto> length (heap w)))
        \<and> (\<not> expired now (NewCacheItem t k ls d) \<longrightarrow>
             items (tbl (snd (NotFoundAdd t now ks k ls d w))) k = Some (length (heap w))))"
proof -
  have "NotFoundAdd t now ks k ls d w = (False, w)" if "items (tbl w) k = Some r"
    using that by (simp add: NotFoundAdd_def)
  moreover have "fst (NotFoundAdd t now ks k ls d w) = True
        \<and> snd (NotFoundAdd t now ks k ls d w) =
            (if triggers ls w then expirationCheck now ks (addedState t k ls d w)
             else addedState t k ls d w)
        \<and> items (tbl (addedState t k ls d w)) = (items (tbl w))(k \<mapsto> length (heap w))
        \<and> heap (addedState t k ls d w) ! length (heap w) = NewCacheItem t k ls d
        \<and> heap (snd (NotFoundAdd t now ks k ls d w)) = heap w @ [NewCacheItem t k ls d]
        \<and> (\<not> triggers ls w \<longrightarrow>
             items (tbl (snd (NotFoundAdd t now ks k ls d w)))
               = (items (tbl w))(k \<mapsto> length (heap w)))
        \<and> (\<not> expired now (NewCacheItem t k ls d) \<longrightarrow>
             items (tbl (snd (NotFoundAdd t now ks k ls d w))) k = Some (length (heap w)))"
    if "items (tbl w) k = None"
  proof -
    have "snd (NotFoundAdd t now ks k ls d w) =
            (if triggers ls w then expirationCheck now ks (addedState t k ls d w)
             else addedState t k ls d w)"
      using that by (simp add: NotFoundAdd_absent Add_eq)
    moreover have "fst (NotFoundAdd t now ks k ls d w) = True
        \<and> heap (snd (NotFoundAdd t now ks k ls d w)) = heap w @ [NewCacheItem t k ls d]
        \<and> (\<not> triggers ls w \<longrightarrow>
             items (tbl (snd (NotFoundAdd t now ks k ls d w)))
               = (items (tbl w))(k \<mapsto> length (heap w)))
        \<and> (\<not> expired now (NewCacheItem t k ls d) \<longrightarrow>
             items (tbl (snd (NotFoundAdd t now ks k ls d w))) k = Some (length (heap w)))"
      using that by (simp add: NotFoundAdd_absent Add_heap Add_keeps_new Add_no_sweep)
    moreover have "items (tbl (addedState t k ls d w)) = (items (tbl w))(k \<mapsto> length (heap w))
        \<and> heap (addedState t k ls d w) ! length (heap w) = NewCacheItem t k ls d"
      by (simp add: addedState_simps)
    ultimately show ?thesis by blast
  qed
  ultimately show ?thesis by blast
qed

text \<open>On a key of \<open>w_old\<close>, and on an empty table with a life span of 50 ns.\<close>

theorem NotFoundAdd_cases_witness:
  "items (tbl w_old) ''k'' = Some 0
   \<and> NotFoundAdd 11 12 [''k'', ''old''] ''k'' 5 ''v2'' w_old = (False, w_old)
   \<and> items (tbl w_empty) ''a'' = None
   \<and> fst (NotFoundAdd 0 0 [''a''] ''a'' 50 ''v'' w_empty) = True
   \<and> items (tbl (snd (NotFoundAdd 0 0 [''a''] ''a'' 50 ''v'' w_empty))) ''a'' = Some 0
   \<and> heap (snd (NotFoundAdd 0 0 [''a''] ''a'' 50 ''v'' w_empty)) = [NewCacheItem 0 ''a'' 50 ''v'']"
proof -
  have h1: "items (tbl w_old) ''k'' = Some 0" by (simp add: w_old_def Cache_def)
  have h2: "items (tbl w_empty) ''a'' = None" by (simp add: w_empty_def Cache_def)
  have e: "\<not> expired 0 (NewCacheItem 0 ''a'' 50 ''v'')"
    by (simp add: expired_def NewCacheItem_def time_Sub_def int64_max_def int64_min_def)
  have l: "heap w_empty = []" by (simp add: w_empty_def)
  from NotFoundAdd_cases [of w_old "''k''" 0 11 12 "[''k'', ''old'']" 5 "''v2''"] h1
  have c1: "NotFoundAdd 11 12 [''k'', ''old''] ''k'' 5 ''v2'' w_old = (False, w_old)"
    by blast
  from NotFoundAdd_cases [of w_empty "''a''" 0 0 0 "[''a'']" 50 "''v''"] h2 e
  have c2: "fst (NotFoundAdd 0 0 [''a''] ''a'' 50 ''v'' w_empty) = True
     \<and> heap (snd (NotFoundAdd 0 0 [''a''] ''a'' 50 ''v'' w_empty))
         = heap w_empty @ [NewCacheItem 0 ''a'' 50 ''v'']
     \<and> items (tbl (snd (NotFoundAdd 0 0 [''a''] ''a'' 50 ''v'' w_empty))) ''a''
         = Some (length (heap w_empty))"
    by blast
  from c1 c2 h1 h2 l show ?thesis by simp
qed

text \<open>The case left open above: a life span of 1 ns, and 5 ns between the creation of the
  item and the expiration check that its insertion starts. The item is inserted,
  \<^verbatim>\<open>NotFoundAdd\<close> returns \<open>true\<close>, and the check has already deleted the item.\<close>

lemma NotFoundAdd_short_life:
  "items (tbl w_empty) ''a'' = None
   \<and> fst (NotFoundAdd 0 5 [''a''] ''a'' 1 ''v'' w_empty) = True
   \<and> items (tbl (addedState 0 ''a'' 1 ''v'' w_empty)) ''a'' = Some 0
   \<and> items (tbl (snd (NotFoundAdd 0 5 [''a''] ''a'' 1 ''v'' w_empty))) ''a'' = None"
  by (simp add: w_empty_def addedState_def run_defs)

text \<open>
  C9. After \<^verbatim>\<open>Flush\<close> the table is empty, its \<^verbatim>\<open>Count\<close> is 0 and its interval is 0; no
  callback is called (the trace is the one before) and no item is changed.
\<close>

theorem Flush_clears:
  "items (tbl (Flush w)) = Map.empty \<and> Count (Flush w) = 0
   \<and> cleanupInterval (tbl (Flush w)) = 0
   \<and> trace (Flush w) = trace w \<and> heap (Flush w) = heap w"
  by (simp add: Flush_def Count_def)

theorem Flush_clears_witness:
  "Count w_old = 2 \<and> Count (Flush w_old) = 0 \<and> cleanupInterval (tbl (Flush w_old)) = 0
   \<and> trace (Flush w_old) = [] \<and> cleanupTimer (tbl (Flush w_old)) = Some (Timer 10 False)"
proof -
  have "Count w_old = 2" "trace w_old = []"
    "cleanupTimer (tbl (Flush w_old)) = Some (Timer 10 False)"
    by (simp_all add: w_old_def Cache_def Count_def Flush_def stopTimer_def)
  with Flush_clears [of w_old] show ?thesis by simp
qed




end
